theory Spec2Isabelle
  imports Complex_Main
begin

section \<open>Arrays, images and errors\<close>

text \<open>
  A numpy array of two dimensions is a list of rows. Pixel intensities are real numbers:
  the arithmetic of the program is modelled exactly, without floating-point rounding.
  Sizes (shapes, the window size) are natural numbers; the number of pyramid levels is a
  Python integer, because the program's behaviour for a non-positive number matters.
\<close>

type_synonym image = "real list list"

datatype error = UnboundLocalError | ValueError | LinAlgError | ZeroDivisionError | CvError

definition height :: "'a list list \<Rightarrow> nat" where
  "height a = length a"

definition width :: "'a list list \<Rightarrow> nat" where
  "width a = (case a of [] \<Rightarrow> 0 | r # _ \<Rightarrow> length r)"

definition shape :: "'a list list \<Rightarrow> nat \<times> nat" where
  "shape a = (height a, width a)"

text \<open>\<open>is_image h w a\<close>: \<open>a\<close> is a rectangular grid of \<open>h\<close> rows and \<open>w\<close> columns.\<close>

definition is_image :: "nat \<Rightarrow> nat \<Rightarrow> 'a list list \<Rightarrow> bool" where
  "is_image h w a = (length a = h \<and> list_all (\<lambda>r. length r = w) a)"

definition zeros :: "nat \<times> nat \<Rightarrow> image" where
  "zeros s = replicate (fst s) (replicate (snd s) 0)"

section \<open>scipy.signal.convolve2d with mode='same' and boundary='symm'\<close>

text \<open>
  The symmetric extension of an axis of length \<open>m\<close>: index \<open>-1\<close> reads index \<open>0\<close>,
  \<open>-2\<close> reads \<open>1\<close>, \<open>m\<close> reads \<open>m - 1\<close>, and so on with period \<open>2 * m\<close>.
\<close>

definition reflect_symm_index :: "int \<Rightarrow> nat \<Rightarrow> nat" where
  "reflect_symm_index j m =
     (let k = (if 0 \<le> j then j mod (2 * int m) else \<bar>j + 1\<bar> mod (2 * int m))
      in nat (if int m \<le> k then 2 * int m - k - 1 else k))"

definition symm_index :: "int \<Rightarrow> nat \<Rightarrow> nat" where
  "symm_index j m = (if j < 0 \<or> int m \<le> j then reflect_symm_index j m else nat j)"

text \<open>
  Output pixel \<open>(m, n)\<close> is the sum over the kernel entries \<open>(j, k)\<close> of
  \<open>in2[j][k] * in1[m + (kh - 1) div 2 - j][n + (kw - 1) div 2 - k]\<close>, the input read
  through the symmetric extension. The output has the shape of \<open>in1\<close>.
\<close>

definition convolve2d :: "image \<Rightarrow> image \<Rightarrow> image" where
  "convolve2d in1 in2 =
     (let h = height in1; w = width in1; kh = height in2; kw = width in2
      in map (\<lambda>m. map (\<lambda>n.
            (\<Sum>j\<leftarrow>[0..<kh]. \<Sum>k\<leftarrow>[0..<kw].
               in1 ! symm_index (int m + int ((kh - 1) div 2) - int j) h
                   ! symm_index (int n + int ((kw - 1) div 2) - int k) w
               * in2 ! j ! k))
          [0..<w]) [0..<h])"

definition PYRAMID_FILTER :: image where
  "PYRAMID_FILTER = map (map (\<lambda>x. 1 / 256 * x))
     [[1, 4, 6, 4, 1],
      [4, 16, 24, 16, 4],
      [6, 24, 36, 24, 6],
      [4, 16, 24, 16, 4],
      [1, 4, 6, 4, 1]]"

definition X_DERIVATIVE_FILTER :: image where
  "X_DERIVATIVE_FILTER = [[1, 0, -1], [2, 0, -2], [1, 0, -1]]"

definition Y_DERIVATIVE_FILTER :: image where
  "Y_DERIVATIVE_FILTER = transpose X_DERIVATIVE_FILTER"

section \<open>build_pyramid\<close>

text \<open>The slice \<open>a[0:n:2]\<close>: the entries at indices \<open>0, 2, 4, ...\<close> below \<open>n\<close>.\<close>

fun every_second :: "'a list \<Rightarrow> 'a list" where
  "every_second [] = []"
| "every_second [x] = [x]"
| "every_second (x # y # xs) = x # every_second xs"

definition slice_0_n_2 :: "nat \<Rightarrow> 'a list \<Rightarrow> 'a list" where
  "slice_0_n_2 n xs = every_second (take n xs)"

text \<open>\<open>img_lev[0:h:2, 0:w:2]\<close>\<close>

definition decimate :: "nat \<Rightarrow> nat \<Rightarrow> image \<Rightarrow> image" where
  "decimate h w a = map (slice_0_n_2 w) (slice_0_n_2 h a)"

text \<open>
  One pass of the loop body for index \<open>i\<close>. The state is the list \<open>pyramid\<close> and the local
  variable \<open>img_lev\<close>, which is unbound (\<open>None\<close>) until the body has run once.
\<close>

definition pyramid_step :: "nat \<Rightarrow> image list \<times> image option \<Rightarrow> image list \<times> image option" where
  "pyramid_step i st =
     (let pyramid = fst st;
          img_lev = pyramid ! i;
          h = height img_lev; w = width img_lev;
          img_lev = convolve2d img_lev PYRAMID_FILTER;
          img_lev = decimate h w img_lev
      in (pyramid @ [img_lev], Some img_lev))"

text \<open>
  \<open>np.array(pyramid, dtype=type(img_lev))\<close>: the type of \<open>img_lev\<close> is \<open>numpy.ndarray\<close>,
  which numpy reads as the object dtype. From arrays of one common shape numpy builds a
  three-dimensional array, whose entries along the first axis are the levels. From arrays
  whose numbers of rows differ it builds a one-dimensional array of the levels. From arrays
  that agree in their number of rows and differ in their number of columns it raises
  ValueError (the input cannot be broadcast).
\<close>

definition np_array_object :: "image list \<Rightarrow> error + image list" where
  "np_array_object arrs =
     (if list_all (\<lambda>a. height a = height (hd arrs)) arrs
         \<and> \<not> list_all (\<lambda>a. width a = width (hd arrs)) arrs
      then Inl ValueError else Inr arrs)"

text \<open>
  The loop runs \<open>range(num_levels)\<close>, which is empty for \<open>num_levels \<le> 0\<close>. The return
  statement reads \<open>img_lev\<close>, which only the loop body assigns.
\<close>

definition build_pyramid :: "image \<Rightarrow> int \<Rightarrow> error + image list" where
  "build_pyramid img num_levels =
     (case fold pyramid_step [0..<nat num_levels] ([img], None) of
        (pyramid, None) \<Rightarrow> Inl UnboundLocalError
      | (pyramid, Some img_lev) \<Rightarrow> np_array_object pyramid)"

text \<open>
  The description of the pyramid that the loop is compared with: \<open>reduce\<close> blurs an image
  with the 5x5 binomial kernel and keeps every second row and column; level \<open>l\<close> is
  \<open>reduce\<close> applied \<open>l\<close> times to the input; \<open>half_up n\<close> is the ceiling of \<open>n / 2\<close>.
\<close>

definition reduce :: "image \<Rightarrow> image" where
  "reduce a = decimate (height a) (width a) (convolve2d a PYRAMID_FILTER)"

definition half_up :: "nat \<Rightarrow> nat" where
  "half_up n = (n + 1) div 2"

definition pyramid_levels :: "image \<Rightarrow> nat \<Rightarrow> image list" where
  "pyramid_levels img n = map (\<lambda>l. (reduce ^^ l) img) [0..<Suc n]"

section \<open>numpy operations used by the flow solvers\<close>

text \<open>
  The slice \<open>a[lo:hi]\<close> for bounds that are not negative (numpy clips them at the length),
  and the two-dimensional slice \<open>a[r_lower:r_upper, c_lower:c_upper]\<close>.
\<close>

definition slice :: "nat \<Rightarrow> nat \<Rightarrow> 'a list \<Rightarrow> 'a list" where
  "slice lo hi xs = take (hi - lo) (drop lo xs)"

definition slice2d :: "nat \<Rightarrow> nat \<Rightarrow> nat \<Rightarrow> nat \<Rightarrow> 'a list list \<Rightarrow> 'a list list" where
  "slice2d r_lower r_upper c_lower c_upper a = map (slice c_lower c_upper) (slice r_lower r_upper a)"

text \<open>\<open>a.reshape(-1)\<close>: the entries in row-major order.\<close>

definition flatten :: "'a list list \<Rightarrow> 'a list" where
  "flatten a = concat a"

text \<open>\<open>np.stack((xs, ys), axis=-1)\<close> of two vectors of one length: the matrix with columns \<open>xs\<close>, \<open>ys\<close>.\<close>

definition np_stack_last :: "real list \<Rightarrow> real list \<Rightarrow> image" where
  "np_stack_last xs ys = map (\<lambda>(x, y). [x, y]) (zip xs ys)"

text \<open>\<open>a.reshape(-1, 1)\<close> of a vector: a column.\<close>

definition column :: "real list \<Rightarrow> image" where
  "column xs = map (\<lambda>x. [x]) xs"

definition np_T :: "image \<Rightarrow> image" where
  "np_T a = map (\<lambda>j. map (\<lambda>i. a ! i ! j) [0..<height a]) [0..<width a]"

text \<open>\<open>a @ b\<close>, for a matrix \<open>a\<close> with as many columns as \<open>b\<close> has rows.\<close>

definition matmul :: "image \<Rightarrow> image \<Rightarrow> image" where
  "matmul a b =
     map (\<lambda>i. map (\<lambda>j. (\<Sum>k\<leftarrow>[0..<width a]. a ! i ! k * b ! k ! j)) [0..<width b]) [0..<height a]"

text \<open>
  \<open>np.linalg.det\<close> and \<open>np.linalg.inv\<close> are functions of numpy, which computes them in
  floating point from an LU factorisation of the matrix. They are parameters of the model:
  \<open>np_linalg_det\<close> maps a matrix to the number that numpy returns for it, \<open>np_linalg_inv\<close>
  maps it to the matrix that numpy returns or to the error that numpy raises. The entries
  of \<open>A.T @ A\<close> are exact sums, as they are in floating point for integer-valued images of
  moderate size; rounding in the products with the returned inverse is not modelled.
\<close>

type_synonym det_fn = "image \<Rightarrow> real"

type_synonym inv_fn = "image \<Rightarrow> error + image"

text \<open>\<open>a - b\<close> and \<open>-a\<close> for arrays of one shape.\<close>

definition np_sub :: "image \<Rightarrow> image \<Rightarrow> image" where
  "np_sub a b = map2 (map2 (-)) a b"

text \<open>The assignment \<open>a[i, j] = v\<close> for indices that are not negative.\<close>

definition set2d :: "image \<Rightarrow> nat \<Rightarrow> nat \<Rightarrow> real \<Rightarrow> image" where
  "set2d a i j v = a[i := (a ! i)[j := v]]"

text \<open>A \<open>for\<close> loop over a list of indices whose body may raise: the first error ends the loop.\<close>

fun for_loop :: "'i list \<Rightarrow> ('i \<Rightarrow> 's \<Rightarrow> error + 's) \<Rightarrow> 's \<Rightarrow> error + 's" where
  "for_loop [] body s = Inr s"
| "for_loop (i # is) body s = (case body i s of Inl e \<Rightarrow> Inl e | Inr s' \<Rightarrow> for_loop is body s')"

section \<open>lucas_kanade_step\<close>

definition epsilon :: real where
  "epsilon = 1 / 10000"

text \<open>
  The body of the two pixel loops, for pixel \<open>(i, j)\<close>: the window of the gradients, the
  matrix \<open>C = A.T @ A\<close>, the determinant guard, and the writes to \<open>du[i, j]\<close> and \<open>dv[i, j]\<close>.
\<close>

definition lucas_kanade_pixel ::
  "det_fn \<Rightarrow> inv_fn \<Rightarrow> image \<Rightarrow> image \<Rightarrow> image \<Rightarrow> nat \<Rightarrow> nat \<Rightarrow> nat \<Rightarrow> image \<times> image
     \<Rightarrow> error + image \<times> image" where
  "lucas_kanade_pixel np_linalg_det np_linalg_inv Ix Iy It window_size i j st =
     (let du = fst st; dv = snd st;
          r_lower = i - window_size div 2; r_upper = i + 1 + window_size div 2;
          c_lower = j - window_size div 2; c_upper = j + 1 + window_size div 2;
          A = np_stack_last (flatten (slice2d r_lower r_upper c_lower c_upper Ix))
                            (flatten (slice2d r_lower r_upper c_lower c_upper Iy));
          C = matmul (np_T A) A
      in if np_linalg_det C > epsilon then
           (let b = column (map uminus (flatten (slice2d r_lower r_upper c_lower c_upper It)))
            in case np_linalg_inv C of
                 Inl e \<Rightarrow> Inl e
               | Inr C_inv \<Rightarrow>
                   (let U_V_LS = matmul (matmul C_inv (np_T A)) b
                    in Inr (set2d du i j (U_V_LS ! 0 ! 0), set2d dv i j (U_V_LS ! 1 ! 0))))
         else Inr (du, dv))"

text \<open>
  The images \<open>I1\<close> and \<open>I2\<close> have one shape (the function's contract; numpy's broadcasting
  of unequal shapes is not modelled). \<open>range(window_size // 2, h - window_size // 2)\<close> is
  empty when the upper bound is not above the lower one, as the interval of naturals is.
\<close>

definition lucas_kanade_step ::
  "det_fn \<Rightarrow> inv_fn \<Rightarrow> image \<Rightarrow> image \<Rightarrow> nat \<Rightarrow> error + image \<times> image" where
  "lucas_kanade_step np_linalg_det np_linalg_inv I1 I2 window_size =
     (let du = zeros (shape I1); dv = zeros (shape I1);
          h = height I1; w = width I1;
          Ix = convolve2d I2 X_DERIVATIVE_FILTER;
          Iy = convolve2d I2 Y_DERIVATIVE_FILTER;
          It = np_sub I2 I1
      in for_loop [window_size div 2..<h - window_size div 2] (\<lambda>i.
           for_loop [window_size div 2..<w - window_size div 2] (\<lambda>j.
             lucas_kanade_pixel np_linalg_det np_linalg_inv Ix Iy It window_size i j)) (du, dv))"

text \<open>
  The description of the dense solver that the loop is compared with. The window of pixel
  \<open>(i, j)\<close> with half-width \<open>k\<close> is the list of the pixels \<open>(r, c)\<close> with
  \<open>i - k \<le> r \<le> i + k\<close> and \<open>j - k \<le> c \<le> j + k\<close>. The normal equations of the
  least-squares problem \<open>Ix * du + Iy * dv = - It\<close> over a window are
  \<open>sxx * du + sxy * dv = - sxt\<close> and \<open>sxy * du + syy * dv = - syt\<close>, where \<open>sxx\<close> is the
  sum of \<open>Ix * Ix\<close> over the window, and so on.
\<close>

definition window_pixels :: "nat \<Rightarrow> nat \<Rightarrow> nat \<Rightarrow> (nat \<times> nat) list" where
  "window_pixels k i j = List.product [i - k..<i + 1 + k] [j - k..<j + 1 + k]"

definition window_sum :: "image \<Rightarrow> image \<Rightarrow> (nat \<times> nat) list \<Rightarrow> real" where
  "window_sum F G ps = (\<Sum>(r, c)\<leftarrow>ps. F ! r ! c * G ! r ! c)"

text \<open>The matrix \<open>C = A.T @ A\<close> of the normal equations over a window.\<close>

definition normal_matrix :: "image \<Rightarrow> image \<Rightarrow> (nat \<times> nat) list \<Rightarrow> image" where
  "normal_matrix Ix Iy ps =
     [[window_sum Ix Ix ps, window_sum Ix Iy ps], [window_sum Iy Ix ps, window_sum Iy Iy ps]]"

definition solves_normal_equations ::
  "image \<Rightarrow> image \<Rightarrow> image \<Rightarrow> (nat \<times> nat) list \<Rightarrow> real \<Rightarrow> real \<Rightarrow> bool" where
  "solves_normal_equations Ix Iy It ps u v =
     (window_sum Ix Ix ps * u + window_sum Ix Iy ps * v = - window_sum Ix It ps \<and>
      window_sum Iy Ix ps * u + window_sum Iy Iy ps * v = - window_sum Iy It ps)"

definition interior :: "nat \<Rightarrow> nat \<Rightarrow> nat \<Rightarrow> nat \<Rightarrow> nat \<Rightarrow> bool" where
  "interior h w k i j = (k \<le> i \<and> i + k < h \<and> k \<le> j \<and> j + k < w)"

text \<open>
  The two entries of \<open>M @ A.T @ b\<close> for a 2x2 matrix \<open>M\<close>, where \<open>b\<close> is the column of
  \<open>- It\<close> over the window: what the program writes to \<open>du[i, j]\<close> and \<open>dv[i, j]\<close> when
  \<open>np.linalg.inv\<close> has returned \<open>M\<close>.
\<close>

definition inverse_times_rhs ::
  "image \<Rightarrow> image \<Rightarrow> image \<Rightarrow> image \<Rightarrow> (nat \<times> nat) list \<Rightarrow> real \<times> real" where
  "inverse_times_rhs M Ix Iy It ps =
     (- (M ! 0 ! 0 * window_sum Ix It ps + M ! 0 ! 1 * window_sum Iy It ps),
      - (M ! 1 ! 0 * window_sum Ix It ps + M ! 1 ! 1 * window_sum Iy It ps))"

text \<open>\<open>M\<close> is an inverse of the 2x2 matrix \<open>C\<close>: \<open>C @ M\<close> is the identity matrix.\<close>

definition is_inverse :: "image \<Rightarrow> image \<Rightarrow> bool" where
  "is_inverse M C =
     (C ! 0 ! 0 * M ! 0 ! 0 + C ! 0 ! 1 * M ! 1 ! 0 = 1 \<and>
      C ! 0 ! 0 * M ! 0 ! 1 + C ! 0 ! 1 * M ! 1 ! 1 = 0 \<and>
      C ! 1 ! 0 * M ! 0 ! 0 + C ! 1 ! 1 * M ! 1 ! 0 = 0 \<and>
      C ! 1 ! 0 * M ! 0 ! 1 + C ! 1 ! 1 * M ! 1 ! 1 = 1)"

text \<open>The effect of one pass of a pixel loop on one output array: pixel \<open>p\<close> is written
  with \<open>x p\<close> when the guard \<open>c p\<close> holds.\<close>

definition paint :: "(nat \<times> nat \<Rightarrow> bool) \<Rightarrow> (nat \<times> nat \<Rightarrow> real) \<Rightarrow> nat \<times> nat \<Rightarrow> image \<Rightarrow> image" where
  "paint c x p a = (if c p then set2d a (fst p) (snd p) (x p) else a)"

section \<open>faster_lucas_kanade_step\<close>

text \<open>
  \<open>a.max()\<close> of a non-empty array (on an array with no entry it raises ValueError, which
  is a branch of \<open>faster_lucas_kanade_step\<close> below), and \<open>np.where(a > t)\<close>: the indices
  of the entries above \<open>t\<close>, in row-major order, as \<open>zip(corners[0], corners[1])\<close> pairs
  them.
\<close>

definition np_max :: "image \<Rightarrow> real" where
  "np_max a = (case flatten a of x # xs \<Rightarrow> fold max xs x)"

definition np_where_gt :: "image \<Rightarrow> real \<Rightarrow> (nat \<times> nat) list" where
  "np_where_gt a t = filter (\<lambda>(i, j). a ! i ! j > t) (List.product [0..<height a] [0..<width a])"

text \<open>
  The body of the loop over the corners, for the corner \<open>(i, j)\<close>: the window is clipped to
  the image, the gradients are the convolutions of the window of \<open>I2\<close> itself, and
  \<open>np.linalg.inv\<close> is called without a guard; an error that it raises ends the call.
\<close>

definition faster_lucas_kanade_pixel ::
  "inv_fn \<Rightarrow> image \<Rightarrow> image \<Rightarrow> nat \<Rightarrow> nat \<times> nat \<Rightarrow> image \<times> image \<Rightarrow> error + image \<times> image" where
  "faster_lucas_kanade_pixel np_linalg_inv I1 I2 window_size p st =
     (let du = fst st; dv = snd st; i = fst p; j = snd p;
          r_lower = nat (max 0 (int i - int (window_size div 2)));
          r_upper = min (height I1) (i + 1 + window_size div 2);
          c_lower = nat (max 0 (int j - int (window_size div 2)));
          c_upper = min (width I1) (j + 1 + window_size div 2);
          I1_win = slice2d r_lower r_upper c_lower c_upper I1;
          I2_win = slice2d r_lower r_upper c_lower c_upper I2;
          Ix = convolve2d I2_win X_DERIVATIVE_FILTER;
          Iy = convolve2d I2_win Y_DERIVATIVE_FILTER;
          It = np_sub I2_win I1_win;
          A = np_stack_last (flatten Ix) (flatten Iy);
          b = column (map uminus (flatten It))
      in case np_linalg_inv (matmul (np_T A) A) of
           Inl e \<Rightarrow> Inl e
         | Inr C_inv \<Rightarrow>
             (let U_V_LS = matmul (matmul C_inv (np_T A)) b
              in Inr (set2d du i j (U_V_LS ! 0 ! 0), set2d dv i j (U_V_LS ! 1 ! 0))))"

text \<open>
  \<open>cv2.cornerHarris(src=np.float32(I2), blockSize=5, k=0.05, ksize=3)\<close> is a function of
  OpenCV; it is the parameter \<open>cornerHarris\<close>, which maps an image to its response map.
\<close>

definition faster_lucas_kanade_step ::
  "det_fn \<Rightarrow> inv_fn \<Rightarrow> (image \<Rightarrow> image) \<Rightarrow> image \<Rightarrow> image \<Rightarrow> nat \<Rightarrow> error + image \<times> image" where
  "faster_lucas_kanade_step np_linalg_det np_linalg_inv cornerHarris I1 I2 window_size =
     (let du = zeros (shape I1); dv = zeros (shape I1); FACTOR = 4
      in if min (height I1) (width I1) < FACTOR * window_size
         then lucas_kanade_step np_linalg_det np_linalg_inv I1 I2 window_size
         else (let haris_response = cornerHarris I2
               in if flatten haris_response = [] then Inl ValueError
                  else (let corners = np_where_gt haris_response (1 / 100 * np_max haris_response)
                        in for_loop corners (faster_lucas_kanade_pixel np_linalg_inv I1 I2 window_size)
                             (du, dv))))"

text \<open>
  The description of the corner-restricted solver that the loop is compared with: the
  selected pixels, the window of a pixel clipped to an \<open>h x w\<close> image, the cut-out of an
  image on that window, and the list of all the pixels of an image.
\<close>

definition selected :: "image \<Rightarrow> nat \<Rightarrow> nat \<Rightarrow> bool" where
  "selected R i j = (R ! i ! j > 1 / 100 * np_max R)"

definition clipped_window :: "nat \<Rightarrow> nat \<Rightarrow> nat \<Rightarrow> nat \<Rightarrow> nat \<Rightarrow> image \<Rightarrow> image" where
  "clipped_window h w k i j a = slice2d (i - k) (min h (i + 1 + k)) (j - k) (min w (j + 1 + k)) a"

definition all_pixels :: "image \<Rightarrow> (nat \<times> nat) list" where
  "all_pixels a = List.product [0..<height a] [0..<width a]"

text \<open>The gradients and the temporal difference that the corner-restricted solver builds
  for the pixel \<open>(i, j)\<close>: computed on the clipped window alone.\<close>

definition window_Ix :: "image \<Rightarrow> nat \<Rightarrow> nat \<Rightarrow> nat \<Rightarrow> nat \<Rightarrow> nat \<Rightarrow> image" where
  "window_Ix I2 h w k i j = convolve2d (clipped_window h w k i j I2) X_DERIVATIVE_FILTER"

definition window_Iy :: "image \<Rightarrow> nat \<Rightarrow> nat \<Rightarrow> nat \<Rightarrow> nat \<Rightarrow> nat \<Rightarrow> image" where
  "window_Iy I2 h w k i j = convolve2d (clipped_window h w k i j I2) Y_DERIVATIVE_FILTER"

definition window_It :: "image \<Rightarrow> image \<Rightarrow> nat \<Rightarrow> nat \<Rightarrow> nat \<Rightarrow> nat \<Rightarrow> nat \<Rightarrow> image" where
  "window_It I1 I2 h w k i j = np_sub (clipped_window h w k i j I2) (clipped_window h w k i j I1)"

text \<open>The matrix \<open>C = A.T @ A\<close> that the corner-restricted solver inverts for the pixel
  \<open>(i, j)\<close>.\<close>

definition window_matrix :: "image \<Rightarrow> nat \<Rightarrow> nat \<Rightarrow> nat \<Rightarrow> nat \<Rightarrow> nat \<Rightarrow> image" where
  "window_matrix I2 h w k i j =
     normal_matrix (window_Ix I2 h w k i j) (window_Iy I2 h w k i j)
       (all_pixels (clipped_window h w k i j I2))"
section \<open>warp_image\<close>

text \<open>
  Two library functions are parameters of the model, and both may fail:
  \<^item> \<open>resize a (w, h)\<close> is \<open>cv2.resize(a, (w, h))\<close> (linear interpolation, the default
    also where the program does not name it), which returns an array of \<open>h\<close> rows and
    \<open>w\<close> columns;
  \<^item> \<open>griddata points values xi\<close> is scipy's
    \<open>griddata(points, values, xi, method='cubic', fill_value=np.nan)\<close>, which returns one
    value for each point of \<open>xi\<close>; the value \<open>nan\<close> is \<open>None\<close>.
\<close>

type_synonym resize_fn = "image \<Rightarrow> nat \<times> nat \<Rightarrow> error + image"

type_synonym griddata_fn =
  "(real \<times> real) list \<Rightarrow> real list \<Rightarrow> (real \<times> real) list \<Rightarrow> error + real option list"

text \<open>\<open>np.meshgrid(np.arange(w), np.arange(h))\<close>: \<open>x[i][j] = j\<close> and \<open>y[i][j] = i\<close>.\<close>

definition meshgrid_x :: "nat \<Rightarrow> nat \<Rightarrow> image" where
  "meshgrid_x w h = map (\<lambda>i. map (\<lambda>j. real j) [0..<w]) [0..<h]"

definition meshgrid_y :: "nat \<Rightarrow> nat \<Rightarrow> image" where
  "meshgrid_y w h = map (\<lambda>i. map (\<lambda>j. real i) [0..<w]) [0..<h]"

text \<open>\<open>a * c\<close> for a scalar \<open>c\<close>, and \<open>a + b\<close> for two vectors of one length.\<close>

definition np_scale :: "image \<Rightarrow> real \<Rightarrow> image" where
  "np_scale a c = map (map (\<lambda>x. x * c)) a"

definition np_add_flat :: "real list \<Rightarrow> real list \<Rightarrow> real list" where
  "np_add_flat xs ys = map2 (+) xs ys"

text \<open>\<open>image_warp[np.isnan(image_warp)] = image.flatten()[np.isnan(image_warp)]\<close>\<close>

definition fill_nan :: "real option list \<Rightarrow> real list \<Rightarrow> real list" where
  "fill_nan image_warp values = map2 (\<lambda>x v. case x of None \<Rightarrow> v | Some y \<Rightarrow> y) image_warp values"

text \<open>\<open>a.reshape((h, w))\<close> raises ValueError unless the vector has \<open>h * w\<close> entries.\<close>

definition reshape :: "nat \<Rightarrow> nat \<Rightarrow> real list \<Rightarrow> error + image" where
  "reshape h w xs =
     (if length xs = h * w then Inr (map (\<lambda>i. take w (drop (i * w) xs)) [0..<h])
      else Inl ValueError)"

text \<open>The points at which the image is sampled: the pixel grid plus the displacement.\<close>

definition points_new :: "nat \<Rightarrow> nat \<Rightarrow> image \<Rightarrow> image \<Rightarrow> (real \<times> real) list" where
  "points_new w h u v =
     zip (np_add_flat (flatten (meshgrid_x w h)) (flatten u))
         (np_add_flat (flatten (meshgrid_y w h)) (flatten v))"

definition warp_image :: "resize_fn \<Rightarrow> griddata_fn \<Rightarrow> image \<Rightarrow> image \<Rightarrow> image \<Rightarrow> error + image" where
  "warp_image resize griddata img u v =
     (let h = height img; w = width img
      in if width u = 0 \<or> height v = 0 then Inl ZeroDivisionError
         else
          (let U_FACTOR = real w / real (width u);
               V_FACTOR = real h / real (height v)
           in case resize u (w, h) of Inl e \<Rightarrow> Inl e | Inr u_resized \<Rightarrow>
              (case resize v (w, h) of Inl e \<Rightarrow> Inl e | Inr v_resized \<Rightarrow>
                (let u = np_scale u_resized U_FACTOR;
                     v = np_scale v_resized V_FACTOR;
                     points = zip (flatten (meshgrid_x w h)) (flatten (meshgrid_y w h))
                 in case griddata points (flatten img) (points_new w h u v) of
                      Inl e \<Rightarrow> Inl e
                    | Inr image_warp \<Rightarrow> reshape h w (fill_nan image_warp (flatten img))))))"

section \<open>lucas_kanade_optical_flow\<close>

text \<open>Sequencing of calls that may raise: the first error is the result.\<close>

definition on_success :: "error + 'a \<Rightarrow> ('a \<Rightarrow> error + 'b) \<Rightarrow> error + 'b" where
  "on_success r f = (case r of Inl e \<Rightarrow> Inl e | Inr x \<Rightarrow> f x)"

text \<open>\<open>u += du\<close> for two arrays of one shape.\<close>

definition np_add :: "image \<Rightarrow> image \<Rightarrow> image" where
  "np_add a b = map2 (map2 (+)) a b"

text \<open>
  \<open>IMAGE_SIZE\<close> for \<open>num_levels \<ge> 0\<close>: each dimension rounded up to a multiple of
  \<open>2 ** num_levels\<close>, as the pair (columns, rows).
\<close>

definition image_size :: "image \<Rightarrow> nat \<Rightarrow> nat \<times> nat" where
  "image_size I1 n =
     (let h_factor = nat \<lceil>real (height I1) / 2 ^ n\<rceil>;
          w_factor = nat \<lceil>real (width I1) / 2 ^ n\<rceil>
      in (w_factor * 2 ^ n, h_factor * 2 ^ n))"

text \<open>\<open>if I.shape != IMAGE_SIZE: I = cv2.resize(I, IMAGE_SIZE)\<close>: the shape (rows, columns)
  is compared with the pair (columns, rows).\<close>

definition resize_if_needed :: "resize_fn \<Rightarrow> image \<Rightarrow> nat \<times> nat \<Rightarrow> error + image" where
  "resize_if_needed resize I IMAGE_SIZE = (if shape I \<noteq> IMAGE_SIZE then resize I IMAGE_SIZE else Inr I)"

text \<open>
  One pass of the inner loop: a Lucas-Kanade step, the accumulation, and the new warp.
  The two pyramids can differ in shape (when \<open>I2\<close> was not resized because its shape was
  the pair \<open>IMAGE_SIZE\<close>, columns first); then \<open>I2 - I1\<close> in the step or \<open>u += du\<close> here
  cannot be broadcast and raises ValueError.
\<close>

definition flow_iteration ::
  "det_fn \<Rightarrow> inv_fn \<Rightarrow> resize_fn \<Rightarrow> griddata_fn \<Rightarrow> image \<Rightarrow> image \<Rightarrow> nat \<Rightarrow> nat
     \<Rightarrow> image \<times> image \<times> image \<Rightarrow> error + image \<times> image \<times> image" where
  "flow_iteration np_linalg_det np_linalg_inv resize griddata I1_level I2_level window_size iter st =
     (let u = fst st; v = fst (snd st); I2_warp = snd (snd st)
      in if shape I1_level \<noteq> shape I2_warp then Inl ValueError
         else case lucas_kanade_step np_linalg_det np_linalg_inv I1_level I2_warp window_size of
           Inl e \<Rightarrow> Inl e
         | Inr (du, dv) \<Rightarrow>
             (let u = np_add u du; v = np_add v dv
              in case warp_image resize griddata I2_level u v of
                   Inl e \<Rightarrow> Inl e
                 | Inr I2_warp \<Rightarrow> Inr (u, v, I2_warp)))"

text \<open>One pass of the loop over the pyramid levels, from the coarsest level down to 0.\<close>

definition flow_level ::
  "det_fn \<Rightarrow> inv_fn \<Rightarrow> resize_fn \<Rightarrow> griddata_fn \<Rightarrow> image list \<Rightarrow> image list \<Rightarrow> nat \<Rightarrow> int \<Rightarrow> nat
     \<Rightarrow> image \<times> image \<Rightarrow> error + image \<times> image" where
  "flow_level np_linalg_det np_linalg_inv resize griddata pyramid_I1 pyarmid_I2 window_size max_iter
     level st =
     (let u = fst st; v = snd st; DOWN_FACTOR = 2;
          I2_level = pyarmid_I2 ! level;
          I1_level = pyramid_I1 ! level
      in case warp_image resize griddata I2_level u v of
           Inl e \<Rightarrow> Inl e
         | Inr I2_warp \<Rightarrow>
            (case for_loop [0..<nat max_iter]
                    (flow_iteration np_linalg_det np_linalg_inv resize griddata I1_level I2_level
                       window_size) (u, v, I2_warp) of
               Inl e \<Rightarrow> Inl e
             | Inr (u, v, I2_warp) \<Rightarrow>
                 if level > 0 then
                   (let h_scale = height (pyarmid_I2 ! (level - 1));
                        w_scale = width (pyarmid_I2 ! (level - 1))
                    in case resize u (w_scale, h_scale) of
                         Inl e \<Rightarrow> Inl e
                       | Inr u_resized \<Rightarrow>
                          (case resize v (w_scale, h_scale) of
                             Inl e \<Rightarrow> Inl e
                           | Inr v_resized \<Rightarrow>
                               Inr (np_scale u_resized DOWN_FACTOR, np_scale v_resized DOWN_FACTOR)))
                 else Inr (u, v)))"

text \<open>
  For a negative \<open>num_levels\<close>, \<open>2 ** num_levels\<close> is a float and \<open>IMAGE_SIZE\<close> is the pair
  of floats (columns, rows) of \<open>I1\<close>: \<open>cv2.resize\<close> rejects it, and where no resize is called
  \<open>build_pyramid\<close> fails for the negative number of levels.
\<close>

definition lucas_kanade_optical_flow ::
  "det_fn \<Rightarrow> inv_fn \<Rightarrow> resize_fn \<Rightarrow> griddata_fn \<Rightarrow> image \<Rightarrow> image \<Rightarrow> nat \<Rightarrow> int \<Rightarrow> int
     \<Rightarrow> error + image \<times> image" where
  "lucas_kanade_optical_flow np_linalg_det np_linalg_inv resize griddata I1 I2 window_size max_iter
     num_levels =
     (if num_levels < 0 then
        (if shape I1 \<noteq> (width I1, height I1) \<or> shape I2 \<noteq> (width I1, height I1)
         then Inl CvError else Inl UnboundLocalError)
      else
        (let IMAGE_SIZE = image_size I1 (nat num_levels)
         in on_success (resize_if_needed resize I1 IMAGE_SIZE) (\<lambda>I1.
            on_success (resize_if_needed resize I2 IMAGE_SIZE) (\<lambda>I2.
            on_success (build_pyramid I1 num_levels) (\<lambda>pyramid_I1.
            on_success (build_pyramid I2 num_levels) (\<lambda>pyarmid_I2.
              (let u = zeros (shape (last pyarmid_I2));
                   v = zeros (shape (last pyarmid_I2))
               in for_loop (rev [0..<nat num_levels + 1])
                    (flow_level np_linalg_det np_linalg_inv resize griddata pyramid_I1 pyarmid_I2
                       window_size max_iter)
                    (u, v))))))))"

section \<open>The stabilization drivers\<close>

text \<open>
  A slice bound of Python, read against an axis of length \<open>n\<close>: a negative bound counts
  from the end, and every bound is clipped to \<open>0 .. n\<close>. The upper bounds of the driver,
  \<open>du.shape[0] - window_size // 2\<close>, are negative for a small array.
\<close>

definition slice_bound :: "nat \<Rightarrow> int \<Rightarrow> nat" where
  "slice_bound n i = (if i < 0 then nat (max 0 (int n + i)) else min n (nat i))"

definition py_slice2d :: "int \<Rightarrow> int \<Rightarrow> int \<Rightarrow> int \<Rightarrow> image \<Rightarrow> image" where
  "py_slice2d r_low r_high c_low c_high a =
     slice2d (slice_bound (height a) r_low) (slice_bound (height a) r_high)
             (slice_bound (width a) c_low) (slice_bound (width a) c_high) a"

text \<open>\<open>np.mean\<close>: the sum of the entries over their number. (For an empty array numpy
  returns \<open>nan\<close>; the driver then adds it on a slice of the same bounds.)\<close>

definition np_mean :: "image \<Rightarrow> real" where
  "np_mean a = sum_list (flatten a) / real (length (flatten a))"

text \<open>\<open>u[r_low:r_high, c_low:c_high] += m\<close> for a scalar \<open>m\<close>.\<close>

definition add_on_slice :: "int \<Rightarrow> int \<Rightarrow> int \<Rightarrow> int \<Rightarrow> real \<Rightarrow> image \<Rightarrow> image" where
  "add_on_slice r_low r_high c_low c_high m u =
     (let rl = slice_bound (height u) r_low; rh = slice_bound (height u) r_high;
          cl = slice_bound (width u) c_low; ch = slice_bound (width u) c_high
      in map (\<lambda>i. map (\<lambda>j. if rl \<le> i \<and> i < rh \<and> cl \<le> j \<and> j < ch
                              then u ! i ! j + m else u ! i ! j)
                      [0..<length (u ! i)])
             [0..<length u])"

text \<open>The accumulation step of a frame: the means of \<open>du\<close> and \<open>dv\<close> over the interior
  region are added to the interior region of the running \<open>u\<close> and \<open>v\<close>.\<close>

definition accumulate_displacement ::
  "nat \<Rightarrow> image \<Rightarrow> image \<Rightarrow> image \<times> image \<Rightarrow> image \<times> image" where
  "accumulate_displacement window_size du dv st =
     (let u = fst st; v = snd st;
          r_low_u = int (window_size div 2); r_high_u = int (height du) - int (window_size div 2);
          c_low_u = int (window_size div 2); c_high_u = int (width du) - int (window_size div 2);
          r_low_v = int (window_size div 2); r_high_v = int (height dv) - int (window_size div 2);
          c_low_v = int (window_size div 2); c_high_v = int (width dv) - int (window_size div 2);
          du_mean = np_mean (py_slice2d r_low_u r_high_u c_low_u c_high_u du);
          dv_mean = np_mean (py_slice2d r_low_v r_high_v c_low_v c_high_v dv)
      in (add_on_slice r_low_u r_high_u c_low_u c_high_u du_mean u,
          add_on_slice r_low_v r_high_v c_low_v c_high_v dv_mean v))"

text \<open>
  The state that a driver carries from frame to frame, and the list of the frames it has
  written (before their conversion to 8-bit integers). The flow estimator \<open>flow\<close> is
  \<open>lucas_kanade_optical_flow\<close> or \<open>faster_lucas_kanade_optical_flow\<close> with the driver's
  window size, number of iterations and number of levels.
\<close>

record stab_state =
  prev_frame :: image
  u_acc :: image
  v_acc :: image
  written :: "image list"

type_synonym flow_fn = "image \<Rightarrow> image \<Rightarrow> error + image \<times> image"

definition stabilization_frame ::
  "resize_fn \<Rightarrow> griddata_fn \<Rightarrow> flow_fn \<Rightarrow> nat \<Rightarrow> nat \<times> nat \<Rightarrow> nat \<times> nat \<Rightarrow> image
     \<Rightarrow> stab_state \<Rightarrow> error + stab_state" where
  "stabilization_frame resize griddata flow window_size IMAGE_SIZE out_size frame st =
     on_success (resize frame IMAGE_SIZE) (\<lambda>gray_frame.
     on_success (flow (prev_frame st) gray_frame) (\<lambda>d.
       (let uv = accumulate_displacement window_size (fst d) (snd d) (u_acc st, v_acc st)
        in on_success (warp_image resize griddata gray_frame (fst uv) (snd uv)) (\<lambda>warp_frame.
           on_success (resize warp_frame out_size) (\<lambda>warp_frame.
             Inr \<lparr>prev_frame = gray_frame, u_acc = fst uv, v_acc = snd uv,
                  written = written st @ [warp_frame]\<rparr>)))))"

text \<open>
  The frames of the video are a list of grayscale images. The first frame is written as it
  is; with no frame at all the colour conversion of the missing first frame fails, and a
  negative \<open>num_levels\<close> makes \<open>IMAGE_SIZE\<close> a pair of floats, which \<open>cv2.resize\<close> rejects.
\<close>

definition video_stabilization ::
  "resize_fn \<Rightarrow> griddata_fn \<Rightarrow> flow_fn \<Rightarrow> nat \<Rightarrow> int \<Rightarrow> nat \<times> nat \<Rightarrow> image list
     \<Rightarrow> error + stab_state" where
  "video_stabilization resize griddata flow window_size num_levels out_size frames =
     (case frames of
        [] \<Rightarrow> Inl CvError
      | frame # rest \<Rightarrow>
          if num_levels < 0 then Inl CvError
          else
           (let IMAGE_SIZE = image_size frame (nat num_levels)
            in on_success (resize frame IMAGE_SIZE) (\<lambda>gray_frame.
                 for_loop rest
                   (stabilization_frame resize griddata flow window_size IMAGE_SIZE out_size)
                   \<lparr>prev_frame = gray_frame, u_acc = zeros (shape gray_frame),
                    v_acc = zeros (shape gray_frame), written = [frame]\<rparr>)))"

definition lucas_kanade_video_stabilization ::
  "det_fn \<Rightarrow> inv_fn \<Rightarrow> resize_fn \<Rightarrow> griddata_fn \<Rightarrow> nat \<Rightarrow> int \<Rightarrow> int \<Rightarrow> nat \<times> nat \<Rightarrow> image list
     \<Rightarrow> error + stab_state" where
  "lucas_kanade_video_stabilization np_linalg_det np_linalg_inv resize griddata window_size max_iter
     num_levels out_size frames =
     video_stabilization resize griddata
       (\<lambda>I1 I2. lucas_kanade_optical_flow np_linalg_det np_linalg_inv resize griddata I1 I2
                  window_size max_iter num_levels)
       window_size num_levels out_size frames"

text \<open>The mean of an array over the interior region with border width \<open>k\<close>.\<close>

definition interior_mean :: "nat \<Rightarrow> nat \<Rightarrow> nat \<Rightarrow> image \<Rightarrow> real" where
  "interior_mean h w k a =
     (\<Sum>(i, j)\<leftarrow>List.product [k..<h - k] [k..<w - k]. a ! i ! j) / real ((h - 2 * k) * (w - 2 * k))"

section \<open>Example inputs\<close>

definition ex_I1 :: image where
  "ex_I1 = [[0, 2, 4, 6, 8], [1, 4, 7, 10, 13], [4, 8, 12, 16, 20],
            [9, 14, 19, 24, 29], [16, 22, 28, 34, 40]]"

definition ex_I2 :: image where
  "ex_I2 = [[0, 3, 10, 21, 36], [1, 5, 13, 25, 41], [4, 9, 18, 31, 48],
            [9, 15, 25, 39, 57], [16, 23, 34, 49, 68]]"

definition ex_flat :: image where
  "ex_flat = [[7, 7, 7, 7, 7], [7, 7, 7, 7, 7], [7, 7, 7, 7, 7], [7, 7, 7, 7, 7], [7, 7, 7, 7, 7]]"

text \<open>
  Instances of the two numpy functions for the closed examples: the determinant and the
  inverse of a 2x2 matrix in exact arithmetic, the inverse raising LinAlgError where the
  determinant is zero.
\<close>

definition exact_det :: det_fn where
  "exact_det C = C ! 0 ! 0 * C ! 1 ! 1 - C ! 0 ! 1 * C ! 1 ! 0"

definition exact_inv :: inv_fn where
  "exact_inv C =
     (let d = exact_det C
      in if d = 0 then Inl LinAlgError
         else Inr [[C ! 1 ! 1 / d, - (C ! 0 ! 1) / d], [- (C ! 1 ! 0) / d, C ! 0 ! 0 / d]])"

text \<open>Two 8x8 images. With \<open>x = 2 * j - 7\<close> and \<open>y = 2 * i - 7\<close>,
  \<open>ex8_I2[i][j] = 2 * x * x + 2 * y * y + x * y + 10\<close>, a paraboloid whose lowest point is
  at the centre of the image, and \<open>ex8_I1[i][j] = ex8_I2[i][j] - (1 + i + 2 * j)\<close>.\<close>

definition ex8_I1 :: image where
  "ex8_I1 =
    [[254, 190, 142, 110, 94, 94, 110, 142],
     [191, 131, 87, 59, 47, 51, 71, 107],
     [144, 88, 48, 24, 16, 24, 48, 88],
     [113, 61, 25, 5, 1, 13, 41, 85],
     [98, 50, 18, 2, 2, 18, 50, 98],
     [99, 55, 27, 15, 19, 39, 75, 127],
     [116, 76, 52, 44, 52, 76, 116, 172],
     [149, 113, 93, 89, 101, 129, 173, 233]]"

definition ex8_I2 :: image where
  "ex8_I2 =
    [[255, 193, 147, 117, 103, 105, 123, 157],
     [193, 135, 93, 67, 57, 63, 85, 123],
     [147, 93, 55, 33, 27, 37, 63, 105],
     [117, 67, 33, 15, 13, 27, 57, 103],
     [103, 57, 27, 13, 15, 33, 67, 117],
     [105, 63, 37, 27, 33, 55, 93, 147],
     [123, 85, 63, 57, 67, 93, 135, 193],
     [157, 123, 105, 103, 117, 147, 193, 255]]"

text \<open>A response map whose only entry above 1% of its maximum is at the pixel \<open>(3, 3)\<close>.\<close>

definition ex8_R :: image where
  "ex8_R =
    [[0, 0, 0, 0, 0, 0, 0, 0],
     [0, 0, 0, 0, 0, 0, 0, 0],
     [0, 0, 0, 0, 0, 0, 0, 0],
     [0, 0, 0, 1, 0, 0, 0, 0],
     [0, 0, 0, 0, 0, 0, 0, 0],
     [0, 0, 0, 0, 0, 0, 0, 0],
     [0, 0, 0, 0, 0, 0, 0, 0],
     [0, 0, 0, 0, 0, 0, 0, 0]]"

text \<open>
  Stand-ins for the two library functions, for closed instances of the theorems about
  \<open>warp_image\<close>: a resize that replicates the nearest entry, and an interpolator that
  returns the sample at a query point that is a grid point and \<open>nan\<close> elsewhere.
\<close>

definition ex_resize :: resize_fn where
  "ex_resize a s =
     Inr (map (\<lambda>i. map (\<lambda>j. a ! (i * height a div snd s) ! (j * width a div fst s)) [0..<fst s])
            [0..<snd s])"

definition ex_griddata :: griddata_fn where
  "ex_griddata points values xi = Inr (map (map_of (zip points values)) xi)"

text \<open>Two 3x3 images, whose dimensions are not multiples of 2.\<close>

definition ex3_I1 :: image where
  "ex3_I1 = [[1, 2, 4], [2, 5, 7], [3, 6, 11]]"

definition ex3_I2 :: image where
  "ex3_I2 = [[1, 3, 4], [2, 6, 8], [4, 6, 12]]"

text \<open>A stand-in for a flow estimator, and a driver state at the 5x5 working resolution.\<close>

definition ex_flow :: flow_fn where
  "ex_flow I1 I2 = Inr (np_sub I2 I1, np_sub I1 I2)"

definition ex_state :: stab_state where
  "ex_state = \<lparr>prev_frame = ex_I1, u_acc = zeros (5, 5), v_acc = zeros (5, 5), written = [ex_I1]\<rparr>"

section \<open>Properties of build_pyramid\<close>

lemma length_every_second: "length (every_second xs) = (length xs + 1) div 2"
  by (induction xs rule: every_second.induct) auto

lemma nth_every_second: "i < (length xs + 1) div 2 \<Longrightarrow> every_second xs ! i = xs ! (2 * i)"
proof (induction xs arbitrary: i rule: every_second.induct)
  case (3 x y xs)
  then show ?case by (cases i) auto
qed auto

lemma is_image_iff: "is_image h w a \<longleftrightarrow> length a = h \<and> (\<forall>i<h. length (a ! i) = w)"
  by (auto simp: is_image_def list_all_length)

lemma is_image_height: "is_image h w a \<Longrightarrow> height a = h"
  by (simp add: is_image_def height_def)

lemma is_image_width: "is_image h w a \<Longrightarrow> 0 < h \<Longrightarrow> width a = w"
  by (cases a) (auto simp: is_image_def width_def)

lemma is_image_convolve2d: "is_image (height a) (width a) (convolve2d a k)"
  by (simp add: is_image_iff convolve2d_def Let_def)

lemma is_image_decimate:
  "is_image h w a \<Longrightarrow> is_image ((h + 1) div 2) ((w + 1) div 2) (decimate h w a)"
  by (auto simp: is_image_iff decimate_def slice_0_n_2_def length_every_second nth_every_second)

lemma is_image_reduce:
  "is_image h w a \<Longrightarrow> 0 < h \<Longrightarrow> is_image (half_up h) (half_up w) (reduce a)"
  unfolding reduce_def half_up_def
  using is_image_decimate[OF is_image_convolve2d[of a PYRAMID_FILTER]]
  by (simp add: is_image_height is_image_width)

lemma pyramid_step_reduce:
  "pyramid_step i (pyr, x) = (pyr @ [reduce (pyr ! i)], Some (reduce (pyr ! i)))"
  by (simp add: pyramid_step_def reduce_def Let_def)

lemma pyramid_fold:
  "fold pyramid_step [0..<n] ([img], None) =
     (map (\<lambda>l. (reduce ^^ l) img) [0..<Suc n], if n = 0 then None else Some ((reduce ^^ n) img))"
proof (induction n)
  case 0
  show ?case by simp
next
  case (Suc n)
  have nth: "map (\<lambda>l. (reduce ^^ l) img) [0..<Suc n] ! n = (reduce ^^ n) img"
    using nth_map_upt[of n "Suc n" 0 "\<lambda>l. (reduce ^^ l) img"] by simp
  have "fold pyramid_step [0..<Suc n] ([img], None) =
        pyramid_step n (fold pyramid_step [0..<n] ([img], None))"
    by simp
  also have "\<dots> = (map (\<lambda>l. (reduce ^^ l) img) [0..<Suc n] @ [(reduce ^^ Suc n) img],
                   Some ((reduce ^^ Suc n) img))"
    unfolding Suc pyramid_step_reduce nth by simp
  finally show ?case by simp
qed



lemma half_up_pos: "0 < n \<Longrightarrow> 0 < half_up n"
  by (simp add: half_up_def)

lemma half_up_pow_pos: "0 < n \<Longrightarrow> 0 < (half_up ^^ l) n"
  by (induction l) (simp_all add: half_up_pos)

lemma half_up_pow_one: "(half_up ^^ l) (Suc 0) = Suc 0"
  by (induction l) (simp_all add: half_up_def)

lemma half_up_pow_closed: "(half_up ^^ l) n = (n + 2 ^ l - 1) div 2 ^ l"
proof (induction l)
  case 0
  show ?case by simp
next
  case (Suc l)
  have pos: "(1::nat) \<le> 2 ^ l" by simp
  have "(half_up ^^ Suc l) n = ((n + 2 ^ l - 1) div 2 ^ l + 1) div 2"
    by (simp add: Suc half_up_def)
  also have "(n + 2 ^ l - 1) div 2 ^ l + 1 = ((n + 2 ^ l - 1) + 2 ^ l) div 2 ^ l"
    by simp
  also have "(n + 2 ^ l - 1) + 2 ^ l = n + 2 ^ Suc l - 1"
    using pos by simp
  also have "(n + 2 ^ Suc l - 1) div 2 ^ l div 2 = (n + 2 ^ Suc l - 1) div 2 ^ Suc l"
    by (metis div_mult2_eq mult.commute power_Suc)
  finally show ?case .
qed

lemma is_image_level:
  "is_image h w img \<Longrightarrow> 0 < h \<Longrightarrow>
   is_image ((half_up ^^ l) h) ((half_up ^^ l) w) ((reduce ^^ l) img)"
proof (induction l)
  case 0
  then show ?case by simp
next
  case (Suc l)
  then show ?case
    using is_image_reduce[of "(half_up ^^ l) h" "(half_up ^^ l) w" "(reduce ^^ l) img"]
    by (simp add: half_up_pow_pos)
qed

lemma np_array_object_levels:
  assumes "is_image h w img" "0 < h" "0 < w" "0 < n"
  shows "np_array_object (pyramid_levels img n) =
           (if h = 1 \<and> 1 < w then Inl ValueError else Inr (pyramid_levels img n))"
proof -
  let ?P = "pyramid_levels img n"
  have hd: "hd ?P = img"
    by (simp add: pyramid_levels_def upt_rec[of 0])
  have h0: "height img = h" and w0: "width img = w"
    using assms by (simp_all add: is_image_height is_image_width)
  have mem1: "reduce img \<in> set ?P"
  proof -
    have "?P ! 1 = reduce img" "1 < length ?P"
      using assms(4) nth_map_upt[of 1 "Suc n" 0 "\<lambda>l. (reduce ^^ l) img"]
      by (simp_all add: pyramid_levels_def del: upt_Suc)
    then show ?thesis by (metis nth_mem)
  qed
  have dims1: "height (reduce img) = half_up h" "width (reduce img) = half_up w"
    using is_image_level[OF assms(1,2), of 1] assms(2)
    by (simp_all add: is_image_height is_image_width half_up_pos)
  show ?thesis
  proof (cases "h = 1")
    case False
    then have "half_up h \<noteq> h" using assms(2) by (simp add: half_up_def)
    then have "\<not> list_all (\<lambda>a. height a = height (hd ?P)) ?P"
      using mem1 dims1 by (auto simp: list_all_iff hd h0 intro!: bexI[of _ "reduce img"])
    then show ?thesis using False by (simp add: np_array_object_def)
  next
    case True
    have all_h: "list_all (\<lambda>a. height a = height (hd ?P)) ?P"
      unfolding list_all_iff hd h0
    proof
      fix a assume "a \<in> set ?P"
      then obtain l where "a = (reduce ^^ l) img" by (auto simp: pyramid_levels_def)
      then show "height a = h"
        using is_image_level[OF assms(1,2), of l] True
        by (simp add: is_image_height half_up_pow_one)
    qed
    show ?thesis
    proof (cases "w = 1")
      case w1: True
      have "list_all (\<lambda>a. width a = width (hd ?P)) ?P"
        unfolding list_all_iff hd w0
      proof
        fix a assume "a \<in> set ?P"
        then obtain l where "a = (reduce ^^ l) img" by (auto simp: pyramid_levels_def)
        then show "width a = w"
          using is_image_level[OF assms(1,2), of l] True w1
          by (simp add: is_image_width half_up_pow_one)
      qed
      then show ?thesis using w1 by (simp add: np_array_object_def)
    next
      case False
      then have "half_up w \<noteq> w" using assms(3) by (simp add: half_up_def)
      then have "\<not> list_all (\<lambda>a. width a = width (hd ?P)) ?P"
        using mem1 dims1 by (auto simp: list_all_iff hd w0 intro!: bexI[of _ "reduce img"])
      then show ?thesis using all_h True False assms(3) by (simp add: np_array_object_def)
    qed
  qed
qed

lemma build_pyramid_levels:
  assumes "is_image h w img" "0 < h" "0 < w" "0 < num_levels"
  shows "build_pyramid img num_levels =
           (if h = 1 \<and> 1 < w then Inl ValueError
            else Inr (pyramid_levels img (nat num_levels)))"
proof -
  have "nat num_levels \<noteq> 0" using assms(4) by simp
  then have "build_pyramid img num_levels = np_array_object (pyramid_levels img (nat num_levels))"
    by (simp add: build_pyramid_def pyramid_fold pyramid_levels_def del: upt_Suc)
  then show ?thesis
    using np_array_object_levels[OF assms(1-3), of "nat num_levels"] assms(4) by simp
qed

lemma decimate_nth:
  assumes "is_image h w a" "i < half_up h" "j < half_up w"
  shows "decimate h w a ! i ! j = a ! (2 * i) ! (2 * j)"
proof -
  have len: "length a = h" and row: "length (a ! (2 * i)) = w"
    using assms by (auto simp: is_image_iff half_up_def)
  have "decimate h w a ! i = slice_0_n_2 w (a ! (2 * i))"
    using assms(2) len
    by (simp add: decimate_def slice_0_n_2_def length_every_second nth_every_second half_up_def)
  then show ?thesis
    using assms(3) row by (simp add: slice_0_n_2_def nth_every_second half_up_def)
qed

lemma build_pyramid_fails_iff:
  assumes "is_image h w img" "0 < h" "0 < w"
  shows "isl (build_pyramid img num_levels) \<longleftrightarrow> num_levels \<le> 0 \<or> (h = 1 \<and> 1 < w)"
proof (cases "num_levels \<le> 0")
  case True
  then show ?thesis by (simp add: build_pyramid_def)
next
  case False
  then show ?thesis using build_pyramid_levels[OF assms, of num_levels] by simp
qed

text \<open>
  Claim C1: for every image and every \<open>num_levels \<ge> 0\<close>, \<open>build_pyramid\<close> returns a
  pyramid of \<open>num_levels + 1\<close> images whose level 0 is the input. The program does not do
  so for \<open>num_levels = 0\<close>: the loop body never runs, the local variable \<open>img_lev\<close> is
  never assigned, and the return statement, which reads it, raises UnboundLocalError. No
  pyramid is returned, whatever the image. (For \<open>num_levels \<ge> 1\<close> the pyramid is as the
  claim describes it: \<open>build_pyramid_levels\<close>, \<open>is_image_level\<close>, \<open>decimate_nth\<close>.)
\<close>

theorem build_pyramid_zero_levels_no_pyramid:
  "\<nexists>pyramid. build_pyramid img 0 = Inr pyramid"
  by (simp add: build_pyramid_def)

text \<open>
  Claim C2: \<open>build_pyramid\<close> fails if and only if \<open>num_levels < 0\<close>. The program also
  fails at \<open>num_levels = 0\<close>, which is not negative: the call raises UnboundLocalError.
\<close>

theorem build_pyramid_zero_levels_raises:
  "build_pyramid img 0 = Inl UnboundLocalError \<and> \<not> (0::int) < 0"
  by (simp add: build_pyramid_def)

section \<open>Properties of the numpy operations\<close>

lemma slice_eq_map:
  "hi \<le> length xs \<Longrightarrow> slice lo hi xs = map (\<lambda>i. xs ! i) [lo..<hi]"
  by (auto simp: slice_def list_eq_iff_nth_eq)

lemma flatten_slice2d:
  assumes "ru \<le> length a" "\<And>r. r < ru \<Longrightarrow> cu \<le> length (a ! r)"
  shows "flatten (slice2d rl ru cl cu a) = map (\<lambda>(r, c). a ! r ! c) (List.product [rl..<ru] [cl..<cu])"
proof -
  have "slice2d rl ru cl cu a = map (\<lambda>r. map (\<lambda>c. a ! r ! c) [cl..<cu]) [rl..<ru]"
    using assms by (simp add: slice2d_def slice_eq_map)
  then show ?thesis
    by (simp add: flatten_def List.product_concat_map map_concat comp_def)
qed

lemma np_stack_last_map:
  "np_stack_last (map f ps) (map g ps) = map (\<lambda>p. [f p, g p]) ps"
  by (simp add: np_stack_last_def zip_map_map zip_same_conv_map)

lemma sum_list_nth_upt:
  "(\<Sum>k\<leftarrow>[0..<length ps]. F (ps ! k)) = (\<Sum>p\<leftarrow>ps. F p)"
proof -
  have "map (\<lambda>k. F (ps ! k)) [0..<length ps] = map F (map ((!) ps) [0..<length ps])"
    by simp
  then show ?thesis by (simp only: map_nth)
qed

lemma sum_list_nth_map_upt:
  "(\<Sum>k\<leftarrow>[0..<length ps]. F (map f ps ! k) (map g ps ! k)) = (\<Sum>p\<leftarrow>ps. F (f p) (g p))"
proof -
  have "map (\<lambda>k. F (map f ps ! k) (map g ps ! k)) [0..<length ps]
        = map (\<lambda>k. F (f (ps ! k)) (g (ps ! k))) [0..<length ps]"
    by simp
  then have "(\<Sum>k\<leftarrow>[0..<length ps]. F (map f ps ! k) (map g ps ! k))
        = (\<Sum>k\<leftarrow>[0..<length ps]. F (f (ps ! k)) (g (ps ! k)))"
    by (rule arg_cong)
  also have "\<dots> = (\<Sum>p\<leftarrow>ps. F (f p) (g p))"
    by (rule sum_list_nth_upt)
  finally show ?thesis .
qed

lemma height_width_cols:
  assumes "ps \<noteq> []"
  shows "height (map (\<lambda>p. [f p, g p]) ps) = length ps" "width (map (\<lambda>p. [f p, g p]) ps) = 2"
  using assms by (cases ps; simp add: height_def width_def)+

lemma np_T_cols:
  assumes "ps \<noteq> []"
  shows "np_T (map (\<lambda>p. [f p, g p]) ps) = [map f ps, map g ps]"
proof -
  have two: "[0..<2] = [0, Suc 0]" by (simp add: upt_rec)
  have c0: "map (\<lambda>i. map (\<lambda>p. [f p, g p]) ps ! i ! 0) [0..<length ps] = map f ps"
    by (rule nth_equalityI) simp_all
  have c1: "map (\<lambda>i. map (\<lambda>p. [f p, g p]) ps ! i ! Suc 0) [0..<length ps] = map g ps"
    by (rule nth_equalityI) simp_all
  show ?thesis
    unfolding np_T_def height_width_cols[OF assms] two using c0 c1 by simp
qed

lemma height_width_column:
  assumes "xs \<noteq> []"
  shows "height (column xs) = length xs" "width (column xs) = 1"
  using assms by (cases xs; simp add: height_def width_def column_def)+

lemma matmul_normal:
  assumes "ps \<noteq> []"
  shows "matmul (np_T (map (\<lambda>p. [f p, g p]) ps)) (map (\<lambda>p. [f p, g p]) ps) =
           [[\<Sum>p\<leftarrow>ps. f p * f p, \<Sum>p\<leftarrow>ps. f p * g p],
            [\<Sum>p\<leftarrow>ps. g p * f p, \<Sum>p\<leftarrow>ps. g p * g p]]"
proof -
  let ?A = "map (\<lambda>p. [f p, g p]) ps"
  have two: "[0..<2] = [0, Suc 0]" by (simp add: upt_rec)
  have hw: "height [map f ps, map g ps] = 2" "width [map f ps, map g ps] = length ps"
    by (simp_all add: height_def width_def)
  have e: "\<And>F1 F2 c. (\<Sum>k\<leftarrow>[0..<length ps]. map F1 ps ! k * (?A ! k ! c))
       = (\<Sum>k\<leftarrow>[0..<length ps]. map F1 ps ! k * map (\<lambda>p. [f p, g p] ! c) ps ! k)"
    by (rule arg_cong[where f = sum_list]) simp
  show ?thesis
    unfolding np_T_cols[OF assms] matmul_def hw height_width_cols[OF assms] two
    by (simp add: e sum_list_nth_map_upt[where F = "(*)"])
qed


lemma matmul_solution:
  fixes a b c d :: real and f g t :: "'p \<Rightarrow> real"
  assumes "ps \<noteq> []"
  defines "U \<equiv> matmul (matmul [[a, b], [c, d]] [map f ps, map g ps])
                        (column (map uminus (map t ps)))"
  shows "U ! 0 ! 0 = (\<Sum>p\<leftarrow>ps. (a * f p + b * g p) * (- t p))"
    and "U ! 1 ! 0 = (\<Sum>p\<leftarrow>ps. (c * f p + d * g p) * (- t p))"
proof -
  let ?N = "length ps"
  let ?M = "matmul [[a, b], [c, d]] [map f ps, map g ps]"
  let ?b = "column (map uminus (map t ps))"
  have two: "[0..<2] = [0, Suc 0]" by (simp add: upt_rec)
  have N: "0 < ?N" using assms(1) by simp
  have M: "?M = [map (\<lambda>j. a * map f ps ! j + b * map g ps ! j) [0..<?N],
                 map (\<lambda>j. c * map f ps ! j + d * map g ps ! j) [0..<?N]]"
    by (simp add: matmul_def height_def width_def two)
  have hM: "height ?M = 2" "width ?M = ?N"
    unfolding M by (simp_all add: height_def width_def)
  have hb: "width ?b = 1"
    using assms(1) height_width_column(2)[of "map uminus (map t ps)"] by simp
  have U: "U = map (\<lambda>i. [\<Sum>k\<leftarrow>[0..<?N]. ?M ! i ! k * ?b ! k ! 0]) [0, Suc 0]"
    unfolding U_def matmul_def[of ?M ?b] hM hb two by simp
  have r0: "map (\<lambda>k. ?M ! 0 ! k * ?b ! k ! 0) [0..<?N]
            = map (\<lambda>k. (a * f (ps ! k) + b * g (ps ! k)) * (- t (ps ! k))) [0..<?N]"
    unfolding M by (rule map_cong) (simp_all add: column_def)
  have r1: "map (\<lambda>k. ?M ! 1 ! k * ?b ! k ! 0) [0..<?N]
            = map (\<lambda>k. (c * f (ps ! k) + d * g (ps ! k)) * (- t (ps ! k))) [0..<?N]"
    unfolding M by (rule map_cong) (simp_all add: column_def)
  have "U ! 0 ! 0 = sum_list (map (\<lambda>k. ?M ! 0 ! k * ?b ! k ! 0) [0..<?N])"
    unfolding U by simp
  also have "\<dots> = (\<Sum>k\<leftarrow>[0..<?N]. (a * f (ps ! k) + b * g (ps ! k)) * (- t (ps ! k)))"
    by (simp only: r0)
  also have "\<dots> = (\<Sum>p\<leftarrow>ps. (a * f p + b * g p) * (- t p))"
    by (rule sum_list_nth_upt)
  finally show "U ! 0 ! 0 = (\<Sum>p\<leftarrow>ps. (a * f p + b * g p) * (- t p))" .
  have "U ! 1 ! 0 = sum_list (map (\<lambda>k. ?M ! 1 ! k * ?b ! k ! 0) [0..<?N])"
    unfolding U by simp
  also have "\<dots> = (\<Sum>k\<leftarrow>[0..<?N]. (c * f (ps ! k) + d * g (ps ! k)) * (- t (ps ! k)))"
    by (simp only: r1)
  also have "\<dots> = (\<Sum>p\<leftarrow>ps. (c * f p + d * g p) * (- t p))"
    by (rule sum_list_nth_upt)
  finally show "U ! 1 ! 0 = (\<Sum>p\<leftarrow>ps. (c * f p + d * g p) * (- t p))" .
qed

lemma sum_list_linear:
  fixes f g t :: "'a \<Rightarrow> real"
  shows "(\<Sum>p\<leftarrow>ps. (a * f p + b * g p) * (- t p))
         = - (a * (\<Sum>p\<leftarrow>ps. f p * t p) + b * (\<Sum>p\<leftarrow>ps. g p * t p))"
  by (induction ps) (simp_all add: algebra_simps)


lemma window_sum_alt: "window_sum F G ps = (\<Sum>p\<leftarrow>ps. (case p of (r, c) \<Rightarrow> F ! r ! c) * (case p of (r, c) \<Rightarrow> G ! r ! c))"
  unfolding window_sum_def by (rule arg_cong[where f = sum_list]) (simp add: case_prod_beta)

text \<open>The linear algebra of one window, for the gradients and the temporal difference
  given as functions on the list of the window's pixels.\<close>

lemma matrix_2x2:
  assumes "is_image 2 2 M"
  shows "M = [[M ! 0 ! 0, M ! 0 ! 1], [M ! 1 ! 0, M ! 1 ! 1]]"
proof -
  from assms obtain r0 r1 where M: "M = [r0, r1]" "length r0 = 2" "length r1 = 2"
    by (auto simp: is_image_def length_Suc_conv numeral_2_eq_2)
  from M(2) obtain a b where r0: "r0 = [a, b]"
    by (auto simp: length_Suc_conv numeral_2_eq_2)
  from M(3) obtain c d where r1: "r1 = [c, d]"
    by (auto simp: length_Suc_conv numeral_2_eq_2)
  show ?thesis by (simp add: M(1) r0 r1)
qed

lemma window_linear_algebra:
  fixes f g t :: "'p \<Rightarrow> real"
  assumes "ps \<noteq> []"
  defines "A \<equiv> np_stack_last (map f ps) (map g ps)"
  defines "sxt \<equiv> (\<Sum>p\<leftarrow>ps. f p * t p)" and "syt \<equiv> (\<Sum>p\<leftarrow>ps. g p * t p)"
  shows "matmul (np_T A) A = [[\<Sum>p\<leftarrow>ps. f p * f p, \<Sum>p\<leftarrow>ps. f p * g p],
                              [\<Sum>p\<leftarrow>ps. g p * f p, \<Sum>p\<leftarrow>ps. g p * g p]]"
    and "is_image 2 2 M \<Longrightarrow>
         matmul (matmul M (np_T A)) (column (map uminus (map t ps))) ! 0 ! 0
           = - (M ! 0 ! 0 * sxt + M ! 0 ! 1 * syt)"
    and "is_image 2 2 M \<Longrightarrow>
         matmul (matmul M (np_T A)) (column (map uminus (map t ps))) ! 1 ! 0
           = - (M ! 1 ! 0 * sxt + M ! 1 ! 1 * syt)"
proof -
  have A: "A = map (\<lambda>p. [f p, g p]) ps"
    by (simp add: A_def np_stack_last_map)
  show "matmul (np_T A) A = [[\<Sum>p\<leftarrow>ps. f p * f p, \<Sum>p\<leftarrow>ps. f p * g p],
                              [\<Sum>p\<leftarrow>ps. g p * f p, \<Sum>p\<leftarrow>ps. g p * g p]]"
    unfolding A by (rule matmul_normal[OF assms(1)])
  have T: "np_T A = [map f ps, map g ps]"
    unfolding A by (rule np_T_cols[OF assms(1)])
  {
    assume "is_image 2 2 M"
    then have M: "M = [[M ! 0 ! 0, M ! 0 ! 1], [M ! 1 ! 0, M ! 1 ! 1]]"
      by (rule matrix_2x2)
    let ?U = "matmul (matmul [[M ! 0 ! 0, M ! 0 ! 1], [M ! 1 ! 0, M ! 1 ! 1]] [map f ps, map g ps])
                (column (map uminus (map t ps)))"
    have U: "matmul (matmul M (np_T A)) (column (map uminus (map t ps))) = ?U"
      unfolding T using M by simp
    have "?U ! 0 ! 0 = - (M ! 0 ! 0 * sxt + M ! 0 ! 1 * syt)"
      unfolding matmul_solution(1)[OF assms(1)] sum_list_linear sxt_def syt_def ..
    moreover have "?U ! 1 ! 0 = - (M ! 1 ! 0 * sxt + M ! 1 ! 1 * syt)"
      unfolding matmul_solution(2)[OF assms(1)] sum_list_linear sxt_def syt_def ..
    ultimately have
      "matmul (matmul M (np_T A)) (column (map uminus (map t ps))) ! 0 ! 0
         = - (M ! 0 ! 0 * sxt + M ! 0 ! 1 * syt)"
      "matmul (matmul M (np_T A)) (column (map uminus (map t ps))) ! 1 ! 0
         = - (M ! 1 ! 0 * sxt + M ! 1 ! 1 * syt)"
      unfolding U by simp_all
  }
  then show "is_image 2 2 M \<Longrightarrow>
         matmul (matmul M (np_T A)) (column (map uminus (map t ps))) ! 0 ! 0
           = - (M ! 0 ! 0 * sxt + M ! 0 ! 1 * syt)"
    and "is_image 2 2 M \<Longrightarrow>
         matmul (matmul M (np_T A)) (column (map uminus (map t ps))) ! 1 ! 0
           = - (M ! 1 ! 0 * sxt + M ! 1 ! 1 * syt)"
    by blast+
qed

text \<open>The normal matrix and the written values of a window whose gradients are arrays.\<close>

lemma window_arrays:
  fixes Ix Iy It :: image
  assumes "ps \<noteq> []"
  defines "A \<equiv> np_stack_last (map (\<lambda>(r, c). Ix ! r ! c) ps) (map (\<lambda>(r, c). Iy ! r ! c) ps)"
  defines "b \<equiv> column (map uminus (map (\<lambda>(r, c). It ! r ! c) ps))"
  shows "matmul (np_T A) A = normal_matrix Ix Iy ps"
    and "is_image 2 2 M \<Longrightarrow>
         (matmul (matmul M (np_T A)) b ! 0 ! 0, matmul (matmul M (np_T A)) b ! 1 ! 0)
           = inverse_times_rhs M Ix Iy It ps"
proof -
  let ?f = "\<lambda>(r, c). Ix ! r ! c" and ?g = "\<lambda>(r, c). Iy ! r ! c" and ?t = "\<lambda>(r, c). It ! r ! c"
  show "matmul (np_T A) A = normal_matrix Ix Iy ps"
    unfolding A_def normal_matrix_def window_sum_alt
    by (rule window_linear_algebra(1)[OF assms(1)])
  show "(matmul (matmul M (np_T A)) b ! 0 ! 0, matmul (matmul M (np_T A)) b ! 1 ! 0)
           = inverse_times_rhs M Ix Iy It ps" if "is_image 2 2 M"
    unfolding A_def b_def inverse_times_rhs_def window_sum_alt
      window_linear_algebra(2)[where f = ?f and g = ?g and t = ?t, OF assms(1) that]
      window_linear_algebra(3)[where f = ?f and g = ?g and t = ?t, OF assms(1) that] ..
qed

lemma is_inverse_solves:
  assumes "is_inverse M (normal_matrix Ix Iy ps)"
  shows "solves_normal_equations Ix Iy It ps
           (fst (inverse_times_rhs M Ix Iy It ps)) (snd (inverse_times_rhs M Ix Iy It ps))"
proof -
  let ?a = "window_sum Ix Ix ps" and ?b = "window_sum Ix Iy ps"
  let ?c = "window_sum Iy Ix ps" and ?d = "window_sum Iy Iy ps"
  let ?p = "window_sum Ix It ps" and ?q = "window_sum Iy It ps"
  from assms have i: "?a * M ! 0 ! 0 + ?b * M ! 1 ! 0 = 1" "?a * M ! 0 ! 1 + ?b * M ! 1 ! 1 = 0"
    "?c * M ! 0 ! 0 + ?d * M ! 1 ! 0 = 0" "?c * M ! 0 ! 1 + ?d * M ! 1 ! 1 = 1"
    by (simp_all add: is_inverse_def normal_matrix_def)
  have "?a * - (M ! 0 ! 0 * ?p + M ! 0 ! 1 * ?q) + ?b * - (M ! 1 ! 0 * ?p + M ! 1 ! 1 * ?q)
        = - ((?a * M ! 0 ! 0 + ?b * M ! 1 ! 0) * ?p + (?a * M ! 0 ! 1 + ?b * M ! 1 ! 1) * ?q)"
    by (simp add: algebra_simps)
  also have "\<dots> = - ?p" unfolding i by simp
  finally have e1: "?a * - (M ! 0 ! 0 * ?p + M ! 0 ! 1 * ?q)
                    + ?b * - (M ! 1 ! 0 * ?p + M ! 1 ! 1 * ?q) = - ?p" .
  have "?c * - (M ! 0 ! 0 * ?p + M ! 0 ! 1 * ?q) + ?d * - (M ! 1 ! 0 * ?p + M ! 1 ! 1 * ?q)
        = - ((?c * M ! 0 ! 0 + ?d * M ! 1 ! 0) * ?p + (?c * M ! 0 ! 1 + ?d * M ! 1 ! 1) * ?q)"
    by (simp add: algebra_simps)
  also have "\<dots> = - ?q" unfolding i by simp
  finally have e2: "?c * - (M ! 0 ! 0 * ?p + M ! 0 ! 1 * ?q)
                    + ?d * - (M ! 1 ! 0 * ?p + M ! 1 ! 1 * ?q) = - ?q" .
  show ?thesis
    unfolding solves_normal_equations_def inverse_times_rhs_def fst_conv snd_conv
    using e1 e2 by blast
qed

lemma window_pixels_nonempty: "window_pixels k i j \<noteq> []"
proof -
  have "0 < length (window_pixels k i j)"
    by (simp add: window_pixels_def) arith
  then show ?thesis by auto
qed

lemma flatten_window:
  assumes "is_image h w a" "i + k < h" "j + k < w"
  shows "flatten (slice2d (i - k) (i + 1 + k) (j - k) (j + 1 + k) a)
         = map (\<lambda>(r, c). a ! r ! c) (window_pixels k i j)"
  unfolding window_pixels_def
  using assms by (intro flatten_slice2d) (auto simp: is_image_iff)

text \<open>The body of the pixel loops, for a window inside the image: the guard is the test of
  the number that \<open>np.linalg.det\<close> returns for the window's normal matrix.\<close>

lemma lucas_kanade_pixel_eq:
  assumes "is_image h w Ix" "is_image h w Iy" "is_image h w It"
    and "i + window_size div 2 < h" "j + window_size div 2 < w"
    and inv_ok: "\<And>C. np_linalg_det C > epsilon \<Longrightarrow> \<exists>M. np_linalg_inv C = Inr M \<and> is_image 2 2 M"
  defines "C \<equiv> \<lambda>(i, j). normal_matrix Ix Iy (window_pixels (window_size div 2) i j)"
  shows "lucas_kanade_pixel np_linalg_det np_linalg_inv Ix Iy It window_size i j st =
     Inr (paint (\<lambda>p. np_linalg_det (C p) > epsilon)
                (\<lambda>(i, j). fst (inverse_times_rhs (projr (np_linalg_inv (C (i, j)))) Ix Iy It
                                 (window_pixels (window_size div 2) i j)))
                (i, j) (fst st),
          paint (\<lambda>p. np_linalg_det (C p) > epsilon)
                (\<lambda>(i, j). snd (inverse_times_rhs (projr (np_linalg_inv (C (i, j)))) Ix Iy It
                                 (window_pixels (window_size div 2) i j)))
                (i, j) (snd st))"
proof -
  let ?k = "window_size div 2"
  let ?ps = "window_pixels ?k i j"
  let ?A = "np_stack_last (map (\<lambda>(r, c). Ix ! r ! c) ?ps) (map (\<lambda>(r, c). Iy ! r ! c) ?ps)"
  let ?b = "column (map uminus (map (\<lambda>(r, c). It ! r ! c) ?ps))"
  have Cij: "C (i, j) = normal_matrix Ix Iy ?ps" by (simp add: C_def)
  have CA: "matmul (np_T ?A) ?A = C (i, j)"
    unfolding Cij by (rule window_arrays(1)[OF window_pixels_nonempty])
  have body: "lucas_kanade_pixel np_linalg_det np_linalg_inv Ix Iy It window_size i j st =
     (if np_linalg_det (C (i, j)) > epsilon
      then case np_linalg_inv (C (i, j)) of
             Inl e \<Rightarrow> Inl e
           | Inr C_inv \<Rightarrow>
               Inr (set2d (fst st) i j (matmul (matmul C_inv (np_T ?A)) ?b ! 0 ! 0),
                    set2d (snd st) i j (matmul (matmul C_inv (np_T ?A)) ?b ! 1 ! 0))
      else Inr (fst st, snd st))"
    unfolding lucas_kanade_pixel_def Let_def flatten_window[OF assms(1,4,5)]
      flatten_window[OF assms(2,4,5)] flatten_window[OF assms(3,4,5)] CA ..
  show ?thesis
  proof (cases "np_linalg_det (C (i, j)) > epsilon")
    case True
    from inv_ok[OF True] obtain M where M: "np_linalg_inv (C (i, j)) = Inr M" "is_image 2 2 M"
      by blast
    from window_arrays(2)[where Ix = Ix and Iy = Iy and It = It and ps = ?ps,
        OF window_pixels_nonempty M(2)]
    have "matmul (matmul M (np_T ?A)) ?b ! 0 ! 0 = fst (inverse_times_rhs M Ix Iy It ?ps)"
      "matmul (matmul M (np_T ?A)) ?b ! 1 ! 0 = snd (inverse_times_rhs M Ix Iy It ?ps)"
      by (simp_all add: prod_eq_iff)
    then show ?thesis
      unfolding body using True M(1) by (simp add: paint_def)
  next
    case False
    then show ?thesis
      unfolding body by (simp add: paint_def)
  qed
qed


section \<open>Loops\<close>

lemma for_loop_total:
  assumes "\<And>i s. i \<in> set is \<Longrightarrow> body i s = Inr (upd i s)"
  shows "for_loop is body s = Inr (fold upd is s)"
  using assms by (induction "is" arbitrary: s) simp_all

lemma fold_product:
  "fold (\<lambda>i. fold (\<lambda>j. upd (i, j)) js) is s = fold upd (List.product is js) s"
  by (induction "is" arbitrary: s) (simp_all add: fold_map comp_def)

lemma for_loop_nested:
  assumes "\<And>i j s. i \<in> set is \<Longrightarrow> j \<in> set js \<Longrightarrow> body i j s = Inr (upd (i, j) s)"
  shows "for_loop is (\<lambda>i. for_loop js (body i)) s = Inr (fold upd (List.product is js) s)"
proof -
  have "for_loop is (\<lambda>i. for_loop js (body i)) s
        = Inr (fold (\<lambda>i. fold (\<lambda>j. upd (i, j)) js) is s)"
    by (rule for_loop_total) (simp add: for_loop_total[where upd = "\<lambda>j. upd (_, j)"] assms)
  then show ?thesis by (simp add: fold_product)
qed

lemma fold_pair:
  "fold (\<lambda>p st. (F p (fst st), G p (snd st))) ps st = (fold F ps (fst st), fold G ps (snd st))"
  by (induction ps arbitrary: st) simp_all

lemma is_image_set2d: "is_image h w a \<Longrightarrow> is_image h w (set2d a i j v)"
proof -
  assume a: "is_image h w a"
  have "length (a[i := (a ! i)[j := v]] ! r) = w" if "r < h" for r
    using a that by (cases "r = i") (simp_all add: is_image_iff)
  then show ?thesis using a by (simp add: is_image_iff set2d_def)
qed

lemma set2d_nth:
  "is_image h w a \<Longrightarrow> p < h \<Longrightarrow> q < w \<Longrightarrow>
   set2d a i j v ! p ! q = (if p = i \<and> q = j then v else a ! p ! q)"
  by (cases "p = i"; cases "q = j") (simp_all add: is_image_iff set2d_def)

lemma is_image_paint: "is_image h w a \<Longrightarrow> is_image h w (paint c x p a)"
  by (simp add: paint_def is_image_set2d)

lemma is_image_fold_paint: "is_image h w a \<Longrightarrow> is_image h w (fold (paint c x) ps a)"
  by (induction ps arbitrary: a) (simp_all add: is_image_paint)

lemma paint_nth:
  assumes "is_image h w a" "p < h" "q < w"
  shows "paint c x r a ! p ! q = (if c r \<and> r = (p, q) then x r else a ! p ! q)"
  using set2d_nth[OF assms, of "fst r" "snd r" "x r"] by (cases r) (auto simp: paint_def)

lemma fold_paint_nth:
  assumes "is_image h w a" "p < h" "q < w"
  shows "fold (paint c x) ps a ! p ! q = (if (p, q) \<in> set ps \<and> c (p, q) then x (p, q) else a ! p ! q)"
proof (induction ps rule: rev_induct)
  case Nil
  show ?case by simp
next
  case (snoc r ps)
  have img: "is_image h w (fold (paint c x) ps a)"
    using assms(1) by (rule is_image_fold_paint)
  have "fold (paint c x) (ps @ [r]) a ! p ! q = paint c x r (fold (paint c x) ps a) ! p ! q"
    by simp
  also have "\<dots> = (if c r \<and> r = (p, q) then x r else fold (paint c x) ps a ! p ! q)"
    by (rule paint_nth[OF img assms(2,3)])
  finally show ?case
    unfolding snoc.IH by auto
qed

lemma is_image_zeros: "is_image h w (zeros (h, w))"
  by (simp add: is_image_def zeros_def list_all_length)

lemma zeros_nth: "p < h \<Longrightarrow> q < w \<Longrightarrow> zeros (h, w) ! p ! q = 0"
  by (simp add: zeros_def)

lemma is_image_np_sub: "is_image h w a \<Longrightarrow> is_image h w b \<Longrightarrow> is_image h w (np_sub a b)"
  by (auto simp: is_image_iff np_sub_def)

lemma np_sub_nth:
  "is_image h w a \<Longrightarrow> is_image h w b \<Longrightarrow> p < h \<Longrightarrow> q < w \<Longrightarrow> np_sub a b ! p ! q = a ! p ! q - b ! p ! q"
  by (auto simp: is_image_iff np_sub_def)

lemma shape_image: "is_image h w a \<Longrightarrow> 0 < h \<Longrightarrow> shape a = (h, w)"
  by (simp add: shape_def is_image_height is_image_width)

lemma is_image_convolve2d_same: "is_image h w a \<Longrightarrow> 0 < h \<Longrightarrow> is_image h w (convolve2d a k)"
  using is_image_convolve2d[of a k] by (simp add: is_image_height is_image_width)

section \<open>Properties of lucas_kanade_step\<close>

lemma for_loop_skip: "for_loop is (\<lambda>i s. Inr s) s = Inr s"
  by (induction "is") simp_all

lemma for_loop_Nil: "for_loop [] body = (\<lambda>s. Inr s)"
  by (rule ext) simp

lemma lucas_kanade_step_eq:
  fixes window_size h w :: nat
  assumes "is_image h w I1" "is_image h w I2" "0 < h"
    and inv_ok: "\<And>C. np_linalg_det C > epsilon \<Longrightarrow> \<exists>M. np_linalg_inv C = Inr M \<and> is_image 2 2 M"
  defines "k \<equiv> window_size div 2"
  defines "Ix \<equiv> convolve2d I2 X_DERIVATIVE_FILTER" and "Iy \<equiv> convolve2d I2 Y_DERIVATIVE_FILTER"
    and "It \<equiv> np_sub I2 I1"
  defines "C \<equiv> \<lambda>(i, j). normal_matrix Ix Iy (window_pixels k i j)"
  defines "c \<equiv> \<lambda>p. np_linalg_det (C p) > epsilon"
  defines "xu \<equiv> \<lambda>(i, j). fst (inverse_times_rhs (projr (np_linalg_inv (C (i, j)))) Ix Iy It
                                  (window_pixels k i j))"
    and "xv \<equiv> \<lambda>(i, j). snd (inverse_times_rhs (projr (np_linalg_inv (C (i, j)))) Ix Iy It
                                  (window_pixels k i j))"
  defines "ps \<equiv> List.product [k..<h - k] [k..<w - k]"
  shows "lucas_kanade_step np_linalg_det np_linalg_inv I1 I2 window_size =
     Inr (fold (paint c xu) ps (zeros (h, w)), fold (paint c xv) ps (zeros (h, w)))"
proof -
  have Ix: "is_image h w Ix" and Iy: "is_image h w Iy" and It: "is_image h w It"
    using assms(1-3) by (simp_all add: Ix_def Iy_def It_def is_image_convolve2d_same is_image_np_sub)
  let ?upd = "\<lambda>p st. (paint c xu p (fst st), paint c xv p (snd st))"
  have "for_loop [k..<h - k] (\<lambda>i. for_loop [k..<w - k] (\<lambda>j.
            lucas_kanade_pixel np_linalg_det np_linalg_inv Ix Iy It window_size i j))
          (zeros (h, w), zeros (h, w))
        = Inr (fold ?upd (List.product [k..<h - k] [k..<w - k]) (zeros (h, w), zeros (h, w)))"
  proof (rule for_loop_nested)
    fix i j st
    assume "i \<in> set [k..<h - k]" "j \<in> set [k..<w - k]"
    then have "i + window_size div 2 < h" "j + window_size div 2 < w"
      by (auto simp: k_def)
    from lucas_kanade_pixel_eq[where np_linalg_det = np_linalg_det and np_linalg_inv = np_linalg_inv,
        OF Ix Iy It this inv_ok, of st]
    show "lucas_kanade_pixel np_linalg_det np_linalg_inv Ix Iy It window_size i j st
          = Inr (?upd (i, j) st)"
      unfolding c_def xu_def xv_def C_def k_def by simp
  qed
  then show ?thesis
    unfolding lucas_kanade_step_def Let_def shape_image[OF assms(1,3)]
      is_image_height[OF assms(1)] is_image_width[OF assms(1,3)]
    by (simp add: fold_pair ps_def Ix_def Iy_def It_def k_def)
qed

lemma interior_iff:
  "(i, j) \<in> set (List.product [k..<h - k] [k..<w - k]) \<longleftrightarrow> interior h w k i j"
  by (auto simp: interior_def)

lemma ex_images: "is_image 5 5 ex_I1" "is_image 5 5 ex_I2" "is_image 5 5 ex_flat"
  by (simp_all add: is_image_def ex_I1_def ex_I2_def ex_flat_def)

lemma lucas_kanade_step_values:
  fixes window_size h w :: nat
  assumes "is_image h w I1" "is_image h w I2" "0 < h"
    and inv_ok: "\<And>C. np_linalg_det C > epsilon \<Longrightarrow> \<exists>M. np_linalg_inv C = Inr M \<and> is_image 2 2 M"
  defines "k \<equiv> window_size div 2"
  defines "Ix \<equiv> convolve2d I2 X_DERIVATIVE_FILTER" and "Iy \<equiv> convolve2d I2 Y_DERIVATIVE_FILTER"
    and "It \<equiv> np_sub I2 I1"
  shows "\<exists>du dv. lucas_kanade_step np_linalg_det np_linalg_inv I1 I2 window_size = Inr (du, dv) \<and>
           is_image h w du \<and> is_image h w dv \<and>
           (\<forall>i<h. \<forall>j<w.
              du ! i ! j =
                (if interior h w k i j
                    \<and> np_linalg_det (normal_matrix Ix Iy (window_pixels k i j)) > epsilon
                 then fst (inverse_times_rhs
                             (projr (np_linalg_inv (normal_matrix Ix Iy (window_pixels k i j))))
                             Ix Iy It (window_pixels k i j))
                 else 0) \<and>
              dv ! i ! j =
                (if interior h w k i j
                    \<and> np_linalg_det (normal_matrix Ix Iy (window_pixels k i j)) > epsilon
                 then snd (inverse_times_rhs
                             (projr (np_linalg_inv (normal_matrix Ix Iy (window_pixels k i j))))
                             Ix Iy It (window_pixels k i j))
                 else 0))"
proof -
  let ?C = "\<lambda>(i, j). normal_matrix Ix Iy (window_pixels k i j)"
  let ?c = "\<lambda>p. np_linalg_det (?C p) > epsilon"
  let ?xu = "\<lambda>(i, j). fst (inverse_times_rhs (projr (np_linalg_inv (?C (i, j)))) Ix Iy It
                            (window_pixels k i j))"
  let ?xv = "\<lambda>(i, j). snd (inverse_times_rhs (projr (np_linalg_inv (?C (i, j)))) Ix Iy It
                            (window_pixels k i j))"
  let ?ps = "List.product [k..<h - k] [k..<w - k]"
  let ?du = "fold (paint ?c ?xu) ?ps (zeros (h, w))"
  let ?dv = "fold (paint ?c ?xv) ?ps (zeros (h, w))"
  have eq: "lucas_kanade_step np_linalg_det np_linalg_inv I1 I2 window_size = Inr (?du, ?dv)"
    unfolding k_def Ix_def Iy_def It_def
    by (rule lucas_kanade_step_eq[where np_linalg_det = np_linalg_det
          and np_linalg_inv = np_linalg_inv, OF assms(1,2,3) inv_ok])
  have img: "is_image h w ?du" "is_image h w ?dv"
    by (simp_all add: is_image_fold_paint is_image_zeros)
  have du: "?du ! i ! j =
                (if interior h w k i j
                    \<and> np_linalg_det (normal_matrix Ix Iy (window_pixels k i j)) > epsilon
                 then fst (inverse_times_rhs
                             (projr (np_linalg_inv (normal_matrix Ix Iy (window_pixels k i j))))
                             Ix Iy It (window_pixels k i j))
                 else 0)"
    if "i < h" "j < w" for i j
    unfolding fold_paint_nth[OF is_image_zeros that] interior_iff zeros_nth[OF that]
    by simp
  have dv: "?dv ! i ! j =
                (if interior h w k i j
                    \<and> np_linalg_det (normal_matrix Ix Iy (window_pixels k i j)) > epsilon
                 then snd (inverse_times_rhs
                             (projr (np_linalg_inv (normal_matrix Ix Iy (window_pixels k i j))))
                             Ix Iy It (window_pixels k i j))
                 else 0)"
    if "i < h" "j < w" for i j
    unfolding fold_paint_nth[OF is_image_zeros that] interior_iff zeros_nth[OF that]
    by simp
  show ?thesis
    using eq img du dv by (intro exI[of _ ?du] exI[of _ ?dv]) simp
qed

lemma exact_inv_ok:
  assumes "exact_det C > epsilon"
  shows "\<exists>M. exact_inv C = Inr M \<and> is_image 2 2 M"
proof -
  have "exact_det C \<noteq> 0" using assms by (simp add: epsilon_def)
  then show ?thesis by (simp add: exact_inv_def Let_def is_image_def)
qed

lemma inverse_2x2:
  fixes a b c d :: real
  assumes "a * d - b * c \<noteq> 0"
  defines "D \<equiv> a * d - b * c"
  shows "a * (d / D) + b * (- c / D) = 1" "a * (- b / D) + b * (a / D) = 0"
    "c * (d / D) + d * (- c / D) = 0" "c * (- b / D) + d * (a / D) = 1"
proof -
  have D: "D \<noteq> 0" using assms by simp
  have "a * (d / D) + b * (- c / D) = (a * d - b * c) / D"
    by (simp add: diff_divide_distrib)
  also have "\<dots> = D / D" by (simp only: D_def)
  finally show "a * (d / D) + b * (- c / D) = 1" using D by simp
  have "c * (- b / D) + d * (a / D) = (a * d - b * c) / D"
    by (simp add: diff_divide_distrib mult.commute)
  also have "\<dots> = D / D" by (simp only: D_def)
  finally show "c * (- b / D) + d * (a / D) = 1" using D by simp
  show "a * (- b / D) + b * (a / D) = 0" by simp
  show "c * (d / D) + d * (- c / D) = 0" by simp
qed

lemma exact_inv_is_inverse:
  assumes "exact_inv C = Inr M"
  shows "is_inverse M C"
proof -
  define a b c d where "a = C ! 0 ! 0" and "b = C ! 0 ! 1" and "c = C ! 1 ! 0" and "d = C ! 1 ! 1"
  define D where "D = a * d - b * c"
  have D: "D \<noteq> 0" and M: "M = [[d / D, - b / D], [- c / D, a / D]]"
    using assms
    by (auto simp: exact_inv_def exact_det_def Let_def a_def b_def c_def d_def D_def
        split: if_splits)
  have m: "M ! 0 ! 0 = d / D" "M ! 0 ! 1 = - b / D" "M ! 1 ! 0 = - c / D" "M ! 1 ! 1 = a / D"
    by (simp_all add: M)
  have "a * d - b * c \<noteq> 0" using D by (simp add: D_def)
  note inv = inverse_2x2[OF this, folded D_def]
  show ?thesis
    unfolding is_inverse_def m a_def[symmetric] b_def[symmetric] c_def[symmetric] d_def[symmetric]
    using inv by blast
qed

text \<open>A 2x2 matrix has at most one inverse, the one that \<open>exact_inv\<close> returns.\<close>

lemma is_inverse_unique:
  assumes "is_image 2 2 M" "is_inverse M C"
  shows "exact_inv C = Inr M"
proof -
  define a b c d where "a = C ! 0 ! 0" and "b = C ! 0 ! 1" and "c = C ! 1 ! 0" and "d = C ! 1 ! 1"
  define p q r s where "p = M ! 0 ! 0" and "q = M ! 0 ! 1" and "r = M ! 1 ! 0" and "s = M ! 1 ! 1"
  define D where "D = a * d - b * c"
  have M: "M = [[p, q], [r, s]]"
    unfolding p_def q_def r_def s_def by (rule matrix_2x2[OF assms(1)])
  have e: "a * p + b * r = 1" "a * q + b * s = 0" "c * p + d * r = 0" "c * q + d * s = 1"
    using assms(2) unfolding is_inverse_def a_def b_def c_def d_def p_def q_def r_def s_def
    by blast+
  have "p * D = d * (a * p + b * r) - b * (c * p + d * r)"
    by (simp add: D_def algebra_simps)
  then have pD: "p * D = d" unfolding e by simp
  have "q * D = d * (a * q + b * s) - b * (c * q + d * s)"
    by (simp add: D_def algebra_simps)
  then have qD: "q * D = - b" unfolding e by simp
  have "r * D = a * (c * p + d * r) - c * (a * p + b * r)"
    by (simp add: D_def algebra_simps)
  then have rD: "r * D = - c" unfolding e by simp
  have "s * D = a * (c * q + d * s) - c * (a * q + b * s)"
    by (simp add: D_def algebra_simps)
  then have sD: "s * D = a" unfolding e by simp
  have D: "D \<noteq> 0"
  proof
    assume "D = 0"
    then have "a = 0" "b = 0" using sD qD by simp_all
    then show False using e(1) by simp
  qed
  have "p = d / D" using pD D by (simp add: field_simps)
  moreover have "q = - b / D" using qD D by (simp add: field_simps)
  moreover have "r = - c / D" using rD D by (simp add: field_simps)
  moreover have "s = a / D" using sD D by (simp add: field_simps)
  ultimately have "p = d / D" "q = - b / D" "r = - c / D" "s = a / D"
    by blast+
  then have "M = [[d / D, - b / D], [- c / D, a / D]]"
    by (simp add: M)
  then show ?thesis
    using D by (simp add: exact_inv_def exact_det_def Let_def a_def b_def c_def d_def D_def)
qed



text \<open>
  Claim C10: for images of one shape whose smaller dimension is below the window size,
  \<open>lucas_kanade_step\<close> returns all-zero \<open>du\<close> and \<open>dv\<close>: one of the two pixel loops is
  empty.
\<close>

theorem lucas_kanade_step_small_image:
  fixes window_size h w :: nat
  assumes "is_image h w I1" "is_image h w I2" "min h w < window_size"
  shows "lucas_kanade_step np_linalg_det np_linalg_inv I1 I2 window_size
         = Inr (zeros (h, w), zeros (h, w))"
proof (cases "h = 0")
  case True
  then have "I1 = []" using assms(1) by (simp add: is_image_def)
  then show ?thesis
    using True by (simp add: lucas_kanade_step_def Let_def shape_def height_def width_def zeros_def)
next
  case False
  then have h: "0 < h" by simp
  have "h - window_size div 2 \<le> window_size div 2 \<or> w - window_size div 2 \<le> window_size div 2"
    using assms(3) by (auto simp: min_def split: if_splits)
  then have "[window_size div 2..<h - window_size div 2] = []
             \<or> [window_size div 2..<w - window_size div 2] = []"
    by auto
  then show ?thesis
    unfolding lucas_kanade_step_def Let_def shape_image[OF assms(1) h]
      is_image_height[OF assms(1)] is_image_width[OF assms(1) h]
    by (auto simp: for_loop_Nil for_loop_skip)
qed

theorem lucas_kanade_step_small_image_witness:
  "min 5 5 < (6::nat) \<and>
   lucas_kanade_step exact_det exact_inv ex_I1 ex_I2 6 = Inr (zeros (5, 5), zeros (5, 5))"
  using lucas_kanade_step_small_image[OF ex_images(1,2), of 6 exact_det exact_inv] by simp

section \<open>Properties of faster_lucas_kanade_step\<close>

text \<open>
  Claim C4: for images of one shape with \<open>min(height, width) < 4 * window_size\<close>,
  \<open>faster_lucas_kanade_step\<close> returns exactly what \<open>lucas_kanade_step\<close> returns,
  whatever the corner detector is.
\<close>

theorem faster_lucas_kanade_step_delegates:
  fixes window_size h w :: nat
  assumes "is_image h w I1" "is_image h w I2" "min h w < 4 * window_size"
  shows "faster_lucas_kanade_step np_linalg_det np_linalg_inv cornerHarris I1 I2 window_size
         = lucas_kanade_step np_linalg_det np_linalg_inv I1 I2 window_size"
proof (cases "h = 0")
  case True
  then have "I1 = []" using assms(1) by (simp add: is_image_def)
  then have "min (height I1) (width I1) = 0" by (simp add: height_def width_def)
  moreover have "0 < 4 * window_size" using assms(3) True by simp
  ultimately show ?thesis by (simp add: faster_lucas_kanade_step_def Let_def)
next
  case False
  then have "0 < h" by simp
  then show ?thesis
    using assms(3)
    by (simp add: faster_lucas_kanade_step_def Let_def is_image_height[OF assms(1)]
        is_image_width[OF assms(1)])
qed

theorem faster_lucas_kanade_step_delegates_witness:
  "min 5 5 < 4 * (3::nat) \<and>
   faster_lucas_kanade_step exact_det exact_inv (\<lambda>I. zeros (5, 5)) ex_I1 ex_I2 3
     = lucas_kanade_step exact_det exact_inv ex_I1 ex_I2 3"
proof -
  have "min 5 5 < 4 * (3::nat)" by simp
  from faster_lucas_kanade_step_delegates[OF ex_images(1,2) this,
      of exact_det exact_inv "\<lambda>I. zeros (5, 5)"]
  show ?thesis by simp
qed

lemma for_loop_fails:
  assumes "\<And>i s. i \<in> set is \<Longrightarrow> body i s = (if bad i then Inl (err i) else Inr (upd i s))"
    and "\<exists>i\<in>set is. bad i"
  shows "\<exists>e. for_loop is body s = Inl e"
  using assms
proof (induction "is" arbitrary: s)
  case Nil
  then show ?case by simp
next
  case (Cons i "is")
  show ?case
  proof (cases "bad i")
    case True
    then show ?thesis using Cons.prems(1)[of i s] by simp
  next
    case False
    then have "\<exists>i\<in>set is. bad i" using Cons.prems(2) by auto
    moreover have "body i s = Inr (upd i s)" using False Cons.prems(1)[of i s] by simp
    ultimately show ?thesis using Cons.IH[of "upd i s"] Cons.prems(1) by simp
  qed
qed

lemma flatten_image:
  assumes "is_image h w a"
  shows "flatten a = map (\<lambda>(r, c). a ! r ! c) (List.product [0..<h] [0..<w])"
proof -
  have "flatten (slice2d 0 h 0 w a) = map (\<lambda>(r, c). a ! r ! c) (List.product [0..<h] [0..<w])"
    using assms by (intro flatten_slice2d) (auto simp: is_image_iff)
  moreover have "slice2d 0 h 0 w a = a"
    using assms by (auto simp: slice2d_def slice_def is_image_iff intro!: nth_equalityI)
  ultimately show ?thesis by simp
qed

lemma is_image_slice2d:
  assumes "is_image h w a" "ru \<le> h" "cu \<le> w"
  shows "is_image (ru - rl) (cu - cl) (slice2d rl ru cl cu a)"
  using assms by (auto simp: is_image_iff slice2d_def slice_def)

lemma is_image_clipped_window:
  assumes "is_image h w a"
  shows "is_image (min h (i + 1 + k) - (i - k)) (min w (j + 1 + k) - (j - k)) (clipped_window h w k i j a)"
  unfolding clipped_window_def by (rule is_image_slice2d[OF assms]) simp_all

lemma all_pixels_image: "is_image h w a \<Longrightarrow> 0 < h \<Longrightarrow> all_pixels a = List.product [0..<h] [0..<w]"
  by (simp add: all_pixels_def is_image_height is_image_width)


text \<open>The body of the loop over the corners: the matrix that is inverted is
  \<open>window_matrix\<close>, whatever \<open>np.linalg.inv\<close> does with it.\<close>

lemma faster_lucas_kanade_pixel_body:
  fixes window_size h w :: nat
  assumes "is_image h w I1" "is_image h w I2" "0 < h" "i < h" "j < w"
  defines "k \<equiv> window_size div 2"
  defines "ps \<equiv> all_pixels (clipped_window h w k i j I2)"
  defines "A \<equiv> np_stack_last (map (\<lambda>(r, c). window_Ix I2 h w k i j ! r ! c) ps)
                               (map (\<lambda>(r, c). window_Iy I2 h w k i j ! r ! c) ps)"
  defines "b \<equiv> column (map uminus (map (\<lambda>(r, c). window_It I1 I2 h w k i j ! r ! c) ps))"
  shows "faster_lucas_kanade_pixel np_linalg_inv I1 I2 window_size (i, j) st =
     (case np_linalg_inv (window_matrix I2 h w k i j) of
        Inl e \<Rightarrow> Inl e
      | Inr C_inv \<Rightarrow>
          Inr (set2d (fst st) i j (matmul (matmul C_inv (np_T A)) b ! 0 ! 0),
               set2d (snd st) i j (matmul (matmul C_inv (np_T A)) b ! 1 ! 0)))"
    and "ps \<noteq> []"
proof -
  let ?hh = "min h (i + 1 + k) - (i - k)" and ?ww = "min w (j + 1 + k) - (j - k)"
  let ?W1 = "clipped_window h w k i j I1" and ?W2 = "clipped_window h w k i j I2"
  let ?Ix = "window_Ix I2 h w k i j" and ?Iy = "window_Iy I2 h w k i j"
  let ?It = "window_It I1 I2 h w k i j"
  have pos: "0 < ?hh" "0 < ?ww" using assms(4,5) by auto
  have W1: "is_image ?hh ?ww ?W1"
    by (rule is_image_clipped_window[OF assms(1)])
  have W2: "is_image ?hh ?ww ?W2"
    by (rule is_image_clipped_window[OF assms(2)])
  have Ix: "is_image ?hh ?ww ?Ix" and Iy: "is_image ?hh ?ww ?Iy" and It: "is_image ?hh ?ww ?It"
    using W1 W2 pos(1)
    by (simp_all add: window_Ix_def window_Iy_def window_It_def is_image_convolve2d_same is_image_np_sub)
  have ps: "ps = List.product [0..<?hh] [0..<?ww]"
    unfolding ps_def by (rule all_pixels_image[OF W2 pos(1)])
  show ne: "ps \<noteq> []"
  proof -
    have "0 < length ps" using pos unfolding ps by simp
    then show ?thesis by auto
  qed
  have lo: "nat (max 0 (int i - int (window_size div 2))) = i - k"
           "nat (max 0 (int j - int (window_size div 2))) = j - k"
    by (simp_all add: k_def)
  have win: "slice2d (i - k) (min (height I1) (i + 1 + window_size div 2)) (j - k)
               (min (width I1) (j + 1 + window_size div 2)) I1 = ?W1"
            "slice2d (i - k) (min (height I1) (i + 1 + window_size div 2)) (j - k)
               (min (width I1) (j + 1 + window_size div 2)) I2 = ?W2"
    by (simp_all add: clipped_window_def is_image_height[OF assms(1)]
        is_image_width[OF assms(1,3)] k_def)
  have CA: "matmul (np_T A) A = window_matrix I2 h w k i j"
    unfolding A_def window_matrix_def ps_def[symmetric]
    by (rule window_arrays(1)[OF ne])
  show "faster_lucas_kanade_pixel np_linalg_inv I1 I2 window_size (i, j) st =
     (case np_linalg_inv (window_matrix I2 h w k i j) of
        Inl e \<Rightarrow> Inl e
      | Inr C_inv \<Rightarrow>
          Inr (set2d (fst st) i j (matmul (matmul C_inv (np_T A)) b ! 0 ! 0),
               set2d (snd st) i j (matmul (matmul C_inv (np_T A)) b ! 1 ! 0)))"
    unfolding faster_lucas_kanade_pixel_def Let_def fst_conv snd_conv lo win
      window_Ix_def[symmetric] window_Iy_def[symmetric] window_It_def[symmetric]
      flatten_image[OF Ix] flatten_image[OF Iy] flatten_image[OF It] ps[symmetric]
      A_def[symmetric] b_def[symmetric] CA ..
qed

lemma faster_lucas_kanade_pixel_eq:
  fixes window_size h w :: nat
  assumes "is_image h w I1" "is_image h w I2" "0 < h" "i < h" "j < w"
    and inv_2x2: "\<forall>C M. np_linalg_inv C = Inr M \<longrightarrow> is_image 2 2 M"
  defines "k \<equiv> window_size div 2"
  defines "ps \<equiv> all_pixels (clipped_window h w k i j I2)"
  shows "faster_lucas_kanade_pixel np_linalg_inv I1 I2 window_size (i, j) st =
     (case np_linalg_inv (window_matrix I2 h w k i j) of
        Inl e \<Rightarrow> Inl e
      | Inr M \<Rightarrow>
          Inr (set2d (fst st) i j (fst (inverse_times_rhs M (window_Ix I2 h w k i j)
                   (window_Iy I2 h w k i j) (window_It I1 I2 h w k i j) ps)),
               set2d (snd st) i j (snd (inverse_times_rhs M (window_Ix I2 h w k i j)
                   (window_Iy I2 h w k i j) (window_It I1 I2 h w k i j) ps))))"
proof -
  note body = faster_lucas_kanade_pixel_body(1)[where np_linalg_inv = np_linalg_inv and st = st,
      OF assms(1-5), of window_size]
  show ?thesis
  proof (cases "np_linalg_inv (window_matrix I2 h w k i j)")
    case (Inl e)
    then show ?thesis
      using body by (simp add: k_def)
  next
    case (Inr M)
    have M: "is_image 2 2 M" using inv_2x2 Inr by blast
    have ne: "ps \<noteq> []"
      unfolding ps_def k_def by (rule faster_lucas_kanade_pixel_body(2)[OF assms(1-5)])
    from window_arrays(2)[where Ix = "window_Ix I2 h w k i j" and Iy = "window_Iy I2 h w k i j"
        and It = "window_It I1 I2 h w k i j", OF ne M]
    show ?thesis
      using body Inr by (simp add: k_def ps_def prod_eq_iff)
  qed
qed

lemma np_where_gt_set:
  assumes "is_image h w R" "0 < h"
  shows "(i, j) \<in> set (np_where_gt R (1 / 100 * np_max R)) \<longleftrightarrow> i < h \<and> j < w \<and> selected R i j"
  by (auto simp: np_where_gt_def selected_def is_image_height[OF assms(1)] is_image_width[OF assms])

lemma faster_lucas_kanade_step_loop:
  fixes window_size h w :: nat
  assumes "is_image h w I1" "is_image h w I2" "is_image h w (cornerHarris I2)"
    and "0 < h" "4 * window_size \<le> min h w" "0 < w"
  shows "faster_lucas_kanade_step np_linalg_det np_linalg_inv cornerHarris I1 I2 window_size
         = for_loop (np_where_gt (cornerHarris I2) (1 / 100 * np_max (cornerHarris I2)))
             (faster_lucas_kanade_pixel np_linalg_inv I1 I2 window_size) (zeros (h, w), zeros (h, w))"
proof -
  have "\<not> min h w < 4 * window_size" using assms(5) by (simp only: not_less)
  moreover have "flatten (cornerHarris I2) \<noteq> []"
  proof -
    have "length (flatten (cornerHarris I2)) = h * w"
      unfolding flatten_image[OF assms(3)] by simp
    then have "0 < length (flatten (cornerHarris I2))" using assms(4,6) by simp
    then show ?thesis by auto
  qed
  ultimately show ?thesis
    by (simp add: faster_lucas_kanade_step_def Let_def shape_image[OF assms(1,4)]
        is_image_height[OF assms(1)] is_image_width[OF assms(1,4)])
qed

lemma faster_lucas_kanade_step_values:
  fixes window_size h w :: nat
  assumes "is_image h w I1" "is_image h w I2" "is_image h w (cornerHarris I2)"
    and "0 < h" "4 * window_size \<le> min h w" "0 < w"
    and inv_2x2: "\<forall>C M. np_linalg_inv C = Inr M \<longrightarrow> is_image 2 2 M"
  defines "k \<equiv> window_size div 2"
  defines "R \<equiv> cornerHarris I2"
  shows "if \<exists>i<h. \<exists>j<w. selected R i j \<and> isl (np_linalg_inv (window_matrix I2 h w k i j))
         then \<exists>e. faster_lucas_kanade_step np_linalg_det np_linalg_inv cornerHarris I1 I2 window_size
                    = Inl e
         else \<exists>du dv. faster_lucas_kanade_step np_linalg_det np_linalg_inv cornerHarris I1 I2
                         window_size = Inr (du, dv) \<and>
                is_image h w du \<and> is_image h w dv \<and>
                (\<forall>i<h. \<forall>j<w.
                   du ! i ! j = (if selected R i j
                      then fst (inverse_times_rhs (projr (np_linalg_inv (window_matrix I2 h w k i j)))
                             (window_Ix I2 h w k i j) (window_Iy I2 h w k i j)
                             (window_It I1 I2 h w k i j) (all_pixels (clipped_window h w k i j I2)))
                      else 0) \<and>
                   dv ! i ! j = (if selected R i j
                      then snd (inverse_times_rhs (projr (np_linalg_inv (window_matrix I2 h w k i j)))
                             (window_Ix I2 h w k i j) (window_Iy I2 h w k i j)
                             (window_It I1 I2 h w k i j) (all_pixels (clipped_window h w k i j I2)))
                      else 0))"
proof -
  let ?corners = "np_where_gt R (1 / 100 * np_max R)"
  let ?C = "\<lambda>(i, j). window_matrix I2 h w k i j"
  let ?xu = "\<lambda>(i, j). fst (inverse_times_rhs (projr (np_linalg_inv (window_matrix I2 h w k i j)))
                (window_Ix I2 h w k i j) (window_Iy I2 h w k i j)
                (window_It I1 I2 h w k i j) (all_pixels (clipped_window h w k i j I2)))"
  let ?xv = "\<lambda>(i, j). snd (inverse_times_rhs (projr (np_linalg_inv (window_matrix I2 h w k i j)))
                (window_Ix I2 h w k i j) (window_Iy I2 h w k i j)
                (window_It I1 I2 h w k i j) (all_pixels (clipped_window h w k i j I2)))"
  let ?upd = "\<lambda>p st. (paint (\<lambda>_. True) ?xu p (fst st), paint (\<lambda>_. True) ?xv p (snd st))"
  let ?body = "faster_lucas_kanade_pixel np_linalg_inv I1 I2 window_size"
  let ?bad = "\<lambda>p. isl (np_linalg_inv (?C p))"
  let ?err = "\<lambda>p. projl (np_linalg_inv (?C p))"
  let ?step = "faster_lucas_kanade_step np_linalg_det np_linalg_inv cornerHarris I1 I2 window_size"
  have R: "is_image h w R" using assms(3) by (simp add: R_def)
  have mem: "\<And>i j. (i, j) \<in> set ?corners \<longleftrightarrow> i < h \<and> j < w \<and> selected R i j"
    by (rule np_where_gt_set[OF R assms(4)])
  have step: "?step = for_loop ?corners ?body (zeros (h, w), zeros (h, w))"
    unfolding R_def
    by (rule faster_lucas_kanade_step_loop[where cornerHarris = cornerHarris, OF assms(1-6)])
  have body: "?body p st = (if ?bad p then Inl (?err p) else Inr (?upd p st))"
    if "p \<in> set ?corners" for p st
  proof -
    obtain i j where p: "p = (i, j)" by (cases p)
    then have "i < h" "j < w" using that mem by auto
    from faster_lucas_kanade_pixel_eq[where np_linalg_inv = np_linalg_inv,
        OF assms(1,2,4) this inv_2x2, of window_size st]
    show ?thesis
      by (cases "np_linalg_inv (window_matrix I2 h w k i j)") (simp_all add: p paint_def k_def)
  qed
  show ?thesis
  proof (cases "\<exists>i<h. \<exists>j<w. selected R i j \<and> isl (np_linalg_inv (window_matrix I2 h w k i j))")
    case True
    then obtain i j where ij: "(i, j) \<in> set ?corners" "?bad (i, j)"
      using mem by auto
    have "\<exists>e. for_loop ?corners ?body (zeros (h, w), zeros (h, w)) = Inl e"
    proof (rule for_loop_fails[where bad = ?bad and err = ?err and upd = ?upd])
      show "?body p st = (if ?bad p then Inl (?err p) else Inr (?upd p st))"
        if "p \<in> set ?corners" for p st
        by (rule body[OF that])
      show "\<exists>p\<in>set ?corners. ?bad p"
        using ij by blast
    qed
    then have "\<exists>e. ?step = Inl e" using step by simp
    then show ?thesis using True by (simp only: if_True)
  next
    case False
    then have ok: "\<not> ?bad (i, j)" if "(i, j) \<in> set ?corners" for i j
      using that mem by auto
    let ?du = "fold (paint (\<lambda>_. True) ?xu) ?corners (zeros (h, w))"
    let ?dv = "fold (paint (\<lambda>_. True) ?xv) ?corners (zeros (h, w))"
    have "for_loop ?corners ?body (zeros (h, w), zeros (h, w))
          = Inr (fold ?upd ?corners (zeros (h, w), zeros (h, w)))"
    proof (rule for_loop_total)
      fix p st assume p: "p \<in> set ?corners"
      have "\<not> ?bad p" using ok[of "fst p" "snd p"] p by simp
      then show "?body p st = Inr (?upd p st)" using body[OF p] by simp
    qed
    then have eq: "?step = Inr (?du, ?dv)"
      using step by (simp add: fold_pair)
    have img: "is_image h w ?du" "is_image h w ?dv"
      by (simp_all add: is_image_fold_paint is_image_zeros)
    have du: "?du ! i ! j = (if selected R i j then ?xu (i, j) else 0)" if ij: "i < h" "j < w" for i j
      unfolding fold_paint_nth[OF is_image_zeros ij] mem zeros_nth[OF ij] using ij by simp
    have dv: "?dv ! i ! j = (if selected R i j then ?xv (i, j) else 0)" if ij: "i < h" "j < w" for i j
      unfolding fold_paint_nth[OF is_image_zeros ij] mem zeros_nth[OF ij] using ij by simp
    have "\<exists>du dv. ?step = Inr (du, dv) \<and>
                is_image h w du \<and> is_image h w dv \<and>
                (\<forall>i<h. \<forall>j<w.
                   du ! i ! j = (if selected R i j then ?xu (i, j) else 0) \<and>
                   dv ! i ! j = (if selected R i j then ?xv (i, j) else 0))"
      using eq img du dv by (intro exI[of _ ?du] exI[of _ ?dv]) simp
    then show ?thesis
      using False by (simp only: if_False prod.case)
  qed
qed

text \<open>
  Claim C5, as the program has it: with \<open>min(h, w) \<ge> 4 * window_size\<close>, the pixels whose
  Harris response exceeds 1% of the response's maximum are selected. For a selected pixel
  the window is clipped to the image, the gradients are the convolutions of the clipped
  window of \<open>I2\<close> itself (\<open>window_Ix\<close>, \<open>window_Iy\<close>), the temporal difference is taken on
  the window, and \<open>np.linalg.inv\<close> is called on the matrix \<open>C\<close> of these window-local
  gradients without a determinant guard. If \<open>np.linalg.inv\<close> raises for some selected
  pixel, the call raises. Otherwise every selected pixel carries \<open>inv(C) @ A.T @ b\<close>, which
  solves the normal equations of the window-local gradients where the returned matrix is
  an inverse of \<open>C\<close>, and every other pixel is zero. (\<open>np.linalg.inv\<close> is only taken to
  return 2x2 matrices.)
\<close>

theorem faster_lucas_kanade_step_corners:
  fixes window_size h w :: nat
  assumes "is_image h w I1" "is_image h w I2" "is_image h w (cornerHarris I2)"
    and "0 < h" "4 * window_size \<le> min h w" "0 < w"
    and inv_2x2: "\<forall>C M. np_linalg_inv C = Inr M \<longrightarrow> is_image 2 2 M"
  defines "k \<equiv> window_size div 2"
  defines "R \<equiv> cornerHarris I2"
  shows "if \<exists>i<h. \<exists>j<w. selected R i j \<and> (\<exists>e. np_linalg_inv (window_matrix I2 h w k i j) = Inl e)
         then \<exists>e. faster_lucas_kanade_step np_linalg_det np_linalg_inv cornerHarris I1 I2 window_size
                    = Inl e
         else \<exists>du dv. faster_lucas_kanade_step np_linalg_det np_linalg_inv cornerHarris I1 I2
                         window_size = Inr (du, dv) \<and>
                is_image h w du \<and> is_image h w dv \<and>
                (\<forall>i<h. \<forall>j<w.
                   (selected R i j \<longrightarrow>
                      (\<exists>M. np_linalg_inv (window_matrix I2 h w k i j) = Inr M \<and>
                           (du ! i ! j, dv ! i ! j) =
                             inverse_times_rhs M (window_Ix I2 h w k i j) (window_Iy I2 h w k i j)
                               (window_It I1 I2 h w k i j) (all_pixels (clipped_window h w k i j I2)) \<and>
                           (is_inverse M (window_matrix I2 h w k i j) \<longrightarrow>
                              solves_normal_equations (window_Ix I2 h w k i j) (window_Iy I2 h w k i j)
                                (window_It I1 I2 h w k i j) (all_pixels (clipped_window h w k i j I2))
                                (du ! i ! j) (dv ! i ! j)))) \<and>
                   (\<not> selected R i j \<longrightarrow> du ! i ! j = 0 \<and> dv ! i ! j = 0))"
proof (cases "\<exists>i<h. \<exists>j<w. selected R i j \<and> isl (np_linalg_inv (window_matrix I2 h w k i j))")
  case True
  then have "\<exists>i<h. \<exists>j<w. selected R i j \<and> (\<exists>e. np_linalg_inv (window_matrix I2 h w k i j) = Inl e)"
    by (simp add: isl_def)
  moreover have "\<exists>e. faster_lucas_kanade_step np_linalg_det np_linalg_inv cornerHarris I1 I2
                        window_size = Inl e"
    using True faster_lucas_kanade_step_values[where cornerHarris = cornerHarris
        and np_linalg_inv = np_linalg_inv and np_linalg_det = np_linalg_det, OF assms(1-7)]
    unfolding k_def R_def by simp
  ultimately show ?thesis by (simp only: if_True)
next
  case False
  then have no: "\<not> (\<exists>i<h. \<exists>j<w. selected R i j
                      \<and> (\<exists>e. np_linalg_inv (window_matrix I2 h w k i j) = Inl e))"
    by (simp add: isl_def)
  let ?Ix = "\<lambda>i j. window_Ix I2 h w k i j" and ?Iy = "\<lambda>i j. window_Iy I2 h w k i j"
  let ?It = "\<lambda>i j. window_It I1 I2 h w k i j"
  let ?ps = "\<lambda>i j. all_pixels (clipped_window h w k i j I2)"
  from False faster_lucas_kanade_step_values[where cornerHarris = cornerHarris
      and np_linalg_inv = np_linalg_inv and np_linalg_det = np_linalg_det, OF assms(1-7)]
  obtain du dv where
    eq: "faster_lucas_kanade_step np_linalg_det np_linalg_inv cornerHarris I1 I2 window_size
         = Inr (du, dv)"
    and img: "is_image h w du" "is_image h w dv"
    and vals: "\<And>i j. i < h \<Longrightarrow> j < w \<Longrightarrow>
        du ! i ! j = (if selected R i j
           then fst (inverse_times_rhs (projr (np_linalg_inv (window_matrix I2 h w k i j)))
                  (?Ix i j) (?Iy i j) (?It i j) (?ps i j))
           else 0) \<and>
        dv ! i ! j = (if selected R i j
           then snd (inverse_times_rhs (projr (np_linalg_inv (window_matrix I2 h w k i j)))
                  (?Ix i j) (?Iy i j) (?It i j) (?ps i j))
           else 0)"
    unfolding k_def R_def by (simp only: if_False) blast
  have px: "(selected R i j \<longrightarrow>
              (\<exists>M. np_linalg_inv (window_matrix I2 h w k i j) = Inr M \<and>
                   (du ! i ! j, dv ! i ! j) = inverse_times_rhs M (?Ix i j) (?Iy i j) (?It i j) (?ps i j) \<and>
                   (is_inverse M (window_matrix I2 h w k i j) \<longrightarrow>
                      solves_normal_equations (?Ix i j) (?Iy i j) (?It i j) (?ps i j)
                        (du ! i ! j) (dv ! i ! j)))) \<and>
            (\<not> selected R i j \<longrightarrow> du ! i ! j = 0 \<and> dv ! i ! j = 0)"
    if ij: "i < h" "j < w" for i j
  proof (cases "selected R i j")
    case sel: True
    then have "\<not> isl (np_linalg_inv (window_matrix I2 h w k i j))" using False ij by blast
    then obtain M where M: "np_linalg_inv (window_matrix I2 h w k i j) = Inr M"
      by (cases "np_linalg_inv (window_matrix I2 h w k i j)") simp_all
    have val: "(du ! i ! j, dv ! i ! j) = inverse_times_rhs M (?Ix i j) (?Iy i j) (?It i j) (?ps i j)"
      using sel vals[OF ij] by (simp add: M)
    have "solves_normal_equations (?Ix i j) (?Iy i j) (?It i j) (?ps i j) (du ! i ! j) (dv ! i ! j)"
      if "is_inverse M (window_matrix I2 h w k i j)"
      using is_inverse_solves[OF that[unfolded window_matrix_def], of "?It i j"] val[symmetric]
      by simp
    with M val sel show ?thesis by blast
  next
    case nsel: False
    then show ?thesis using vals[OF ij] by simp
  qed
  have "\<exists>du dv. faster_lucas_kanade_step np_linalg_det np_linalg_inv cornerHarris I1 I2
                         window_size = Inr (du, dv) \<and>
                is_image h w du \<and> is_image h w dv \<and>
                (\<forall>i<h. \<forall>j<w.
                   (selected R i j \<longrightarrow>
                      (\<exists>M. np_linalg_inv (window_matrix I2 h w k i j) = Inr M \<and>
                           (du ! i ! j, dv ! i ! j) =
                             inverse_times_rhs M (?Ix i j) (?Iy i j) (?It i j) (?ps i j) \<and>
                           (is_inverse M (window_matrix I2 h w k i j) \<longrightarrow>
                              solves_normal_equations (?Ix i j) (?Iy i j) (?It i j) (?ps i j)
                                (du ! i ! j) (dv ! i ! j)))) \<and>
                   (\<not> selected R i j \<longrightarrow> du ! i ! j = 0 \<and> dv ! i ! j = 0))"
    using eq img px by blast
  then show ?thesis
    using no by (simp only: if_False)
qed

text \<open>
  With \<open>window_size = 1\<close> the window of a pixel is the pixel alone. The convolution of a
  one-pixel array with a derivative kernel, under symmetric extension, is zero, so the
  matrix that the corner-restricted solver inverts is the zero matrix at every pixel.
\<close>

lemma take_1_drop: "i < length xs \<Longrightarrow> take (Suc 0) (drop i xs) = [xs ! i]"
  by (simp add: take_Suc_conv_app_nth)

lemma clipped_window_single_pixel:
  assumes "is_image h w a" "i < h" "j < w"
  shows "clipped_window h w 0 i j a = [[a ! i ! j]]"
proof -
  have m: "min h (i + 1 + 0) - (i - 0) = Suc 0" "min w (j + 1 + 0) - (j - 0) = Suc 0"
    using assms(2,3) by simp_all
  have "length a = h" "length (a ! i) = w"
    using assms(1,2) by (simp_all add: is_image_iff)
  then show ?thesis
    unfolding clipped_window_def slice2d_def slice_def m
    using assms(2,3) by (simp add: take_1_drop)
qed

lemma convolve2d_single_pixel:
  "convolve2d [[x]] X_DERIVATIVE_FILTER = [[0]]"
  "convolve2d [[x]] Y_DERIVATIVE_FILTER = [[0]]"
proof -
  have three: "[0..<3] = [0, 1, 2]" by (simp add: upt_rec)
  have "symm_index n 1 = 0" for n
    by (simp add: symm_index_def reflect_symm_index_def Let_def)
  then have s: "symm_index n (Suc 0) = 0" for n
    by simp
  have Y: "Y_DERIVATIVE_FILTER = [[1, 2, 1], [0, 0, 0], [-1, -2, -1]]"
    by (simp add: Y_DERIVATIVE_FILTER_def X_DERIVATIVE_FILTER_def transpose.simps)
  show "convolve2d [[x]] X_DERIVATIVE_FILTER = [[0]]"
    by (simp add: convolve2d_def Let_def height_def width_def X_DERIVATIVE_FILTER_def three s)
  show "convolve2d [[x]] Y_DERIVATIVE_FILTER = [[0]]"
    unfolding Y by (simp add: convolve2d_def Let_def height_def width_def three s)
qed

lemma window_matrix_single_pixel:
  assumes "is_image h w I2" "i < h" "j < w"
  shows "window_matrix I2 h w 0 i j = [[0, 0], [0, 0]]"
  unfolding window_matrix_def window_Ix_def window_Iy_def
    clipped_window_single_pixel[OF assms] convolve2d_single_pixel
  by (simp add: normal_matrix_def window_sum_def all_pixels_def height_def width_def)

lemma faster_lucas_kanade_step_single_pixel_windows:
  fixes h w :: nat
  assumes "is_image h w I1" "is_image h w I2" "is_image h w (cornerHarris I2)"
    and "4 \<le> min h w"
    and "np_linalg_inv [[0, 0], [0, 0]] = Inl e"
    and "i < h" "j < w" "selected (cornerHarris I2) i j"
  shows "faster_lucas_kanade_step np_linalg_det np_linalg_inv cornerHarris I1 I2 1 = Inl e"
proof -
  let ?corners = "np_where_gt (cornerHarris I2) (1 / 100 * np_max (cornerHarris I2))"
  let ?body = "faster_lucas_kanade_pixel np_linalg_inv I1 I2 1"
  have pos: "0 < h" "0 < w" and big: "4 * (1::nat) \<le> min h w" using assms(4) by simp_all
  have mem: "\<And>i j. (i, j) \<in> set ?corners \<longleftrightarrow> i < h \<and> j < w \<and> selected (cornerHarris I2) i j"
    by (rule np_where_gt_set[OF assms(3) pos(1)])
  have step: "faster_lucas_kanade_step np_linalg_det np_linalg_inv cornerHarris I1 I2 1
              = for_loop ?corners ?body (zeros (h, w), zeros (h, w))"
    by (rule faster_lucas_kanade_step_loop[where cornerHarris = cornerHarris,
          OF assms(1-3) pos(1) big pos(2)])
  have "(i, j) \<in> set ?corners" using mem assms(6-8) by blast
  then obtain p ps where c: "?corners = p # ps" by (cases ?corners) auto
  obtain r q where p: "p = (r, q)" by (cases p)
  have "(r, q) \<in> set ?corners" unfolding c p by simp
  then have rq: "r < h" "q < w" using mem by blast+
  have "?body (r, q) st = Inl e" for st
    unfolding faster_lucas_kanade_pixel_body(1)[OF assms(1,2) pos(1) rq]
    by (simp add: window_matrix_single_pixel[OF assms(2) rq] assms(5))
  then show ?thesis
    unfolding step c p by simp
qed

lemma ex8_images: "is_image 8 8 ex8_I1" "is_image 8 8 ex8_I2" "is_image 8 8 ex8_R"
  by (simp_all add: is_image_def ex8_I1_def ex8_I2_def ex8_R_def)

lemma all_below_list_all:
  "(\<forall>i<n. \<forall>j<m. P i j) = list_all (\<lambda>(i, j). P i j) (List.product [0..<n] [0..<m])"
  by (auto simp: list_all_iff)

lemma ex8_selected: "\<forall>i<8. \<forall>j<8. selected ex8_R i j = (i = 3 \<and> j = 3)"
  unfolding all_below_list_all by code_simp

lemma exact_inv_2x2: "\<forall>C M. exact_inv C = Inr M \<longrightarrow> is_image 2 2 M"
  by (auto simp: exact_inv_def Let_def is_image_def split: if_splits)

text \<open>The system of the corner-restricted solver at the pixel \<open>(3, 3)\<close> of the 8x8 example
  images, for the window size 2 (a 3x3 window), and its solution.\<close>

lemma ex8_window_matrix: "window_matrix ex8_I2 8 8 1 3 3 = [[36672, 31744], [31744, 36672]]"
  by code_simp

lemma ex8_window_inverse:
  "exact_inv [[36672, 31744], [31744, 36672]]
   = Inr [[573 / 5268032, - (31 / 329252)], [- (31 / 329252), 573 / 5268032]]"
  by code_simp

lemma ex8_window_value:
  "inverse_times_rhs [[573 / 5268032, - (31 / 329252)], [- (31 / 329252), 573 / 5268032]]
     (window_Ix ex8_I2 8 8 1 3 3) (window_Iy ex8_I2 8 8 1 3 3) (window_It ex8_I1 ex8_I2 8 8 1 3 3)
     (all_pixels (clipped_window 8 8 1 3 3 ex8_I2))
   = (8907 / 164626, 6057 / 82313)"
  by code_simp

lemma ex8_flat_window: "exact_inv (window_matrix (zeros (8, 8)) 8 8 1 3 3) = Inl LinAlgError"
  by code_simp

text \<open>The system of the dense solver at the same pixel: its solution, and that the
  solution of the corner-restricted solver's system does not solve it.\<close>

lemma ex8_dense_solution:
  "solves_normal_equations (convolve2d ex8_I2 X_DERIVATIVE_FILTER)
     (convolve2d ex8_I2 Y_DERIVATIVE_FILTER) (np_sub ex8_I2 ex8_I1) (window_pixels 1 3 3)
     (109 / 6720) (179 / 6720)"
  by code_simp

lemma ex8_not_dense:
  "\<not> solves_normal_equations (convolve2d ex8_I2 X_DERIVATIVE_FILTER)
       (convolve2d ex8_I2 Y_DERIVATIVE_FILTER) (np_sub ex8_I2 ex8_I1) (window_pixels 1 3 3)
       (8907 / 164626) (6057 / 82313)"
  by code_simp

theorem faster_lucas_kanade_step_corners_witness:
  "(\<exists>du dv. faster_lucas_kanade_step exact_det exact_inv (\<lambda>I. ex8_R) ex8_I1 ex8_I2 2 = Inr (du, dv) \<and>
      is_image 8 8 du \<and> is_image 8 8 dv \<and>
      solves_normal_equations (window_Ix ex8_I2 8 8 1 3 3) (window_Iy ex8_I2 8 8 1 3 3)
        (window_It ex8_I1 ex8_I2 8 8 1 3 3) (all_pixels (clipped_window 8 8 1 3 3 ex8_I2))
        (du ! 3 ! 3) (dv ! 3 ! 3) \<and>
      du ! 0 ! 0 = 0 \<and> dv ! 0 ! 0 = 0) \<and>
   (\<exists>e. faster_lucas_kanade_step exact_det exact_inv (\<lambda>I. ex8_R) ex8_I1 (zeros (8, 8)) 2 = Inl e)"
proof
  have k: "(2::nat) div 2 = 1" by simp
  have pos: "(0::nat) < 8" and big: "4 * (2::nat) \<le> min 8 8" by simp_all
  have lt: "(3::nat) < 8" by simp
  have sel: "selected ex8_R 3 3" "\<not> selected ex8_R 0 0"
    using ex8_selected by simp_all
  have reg: "\<not> (\<exists>e. exact_inv (window_matrix ex8_I2 8 8 1 3 3) = Inl e)"
    unfolding ex8_window_matrix ex8_window_inverse by simp
  have ok: "\<not> (\<exists>i<8. \<exists>j<8. selected ex8_R i j
                \<and> (\<exists>e. exact_inv (window_matrix ex8_I2 8 8 1 i j) = Inl e))"
    using ex8_selected reg by auto
  from faster_lucas_kanade_step_corners[where cornerHarris = "\<lambda>I. ex8_R"
      and np_linalg_det = exact_det and np_linalg_inv = exact_inv,
      OF ex8_images(1,2,3) pos big pos exact_inv_2x2, unfolded k] ok
  obtain du dv where
    eq: "faster_lucas_kanade_step exact_det exact_inv (\<lambda>I. ex8_R) ex8_I1 ex8_I2 2 = Inr (du, dv)"
    and img: "is_image 8 8 du" "is_image 8 8 dv"
    and px: "\<forall>i<8. \<forall>j<8.
       (selected ex8_R i j \<longrightarrow>
          (\<exists>M. exact_inv (window_matrix ex8_I2 8 8 1 i j) = Inr M \<and>
               (du ! i ! j, dv ! i ! j) =
                 inverse_times_rhs M (window_Ix ex8_I2 8 8 1 i j) (window_Iy ex8_I2 8 8 1 i j)
                   (window_It ex8_I1 ex8_I2 8 8 1 i j) (all_pixels (clipped_window 8 8 1 i j ex8_I2)) \<and>
               (is_inverse M (window_matrix ex8_I2 8 8 1 i j) \<longrightarrow>
                  solves_normal_equations (window_Ix ex8_I2 8 8 1 i j) (window_Iy ex8_I2 8 8 1 i j)
                    (window_It ex8_I1 ex8_I2 8 8 1 i j) (all_pixels (clipped_window 8 8 1 i j ex8_I2))
                    (du ! i ! j) (dv ! i ! j)))) \<and>
       (\<not> selected ex8_R i j \<longrightarrow> du ! i ! j = 0 \<and> dv ! i ! j = 0)"
    by (simp only: if_False) blast
  from px sel(1) lt obtain M where
    M: "exact_inv (window_matrix ex8_I2 8 8 1 3 3) = Inr M"
    and s: "is_inverse M (window_matrix ex8_I2 8 8 1 3 3) \<longrightarrow>
       solves_normal_equations (window_Ix ex8_I2 8 8 1 3 3) (window_Iy ex8_I2 8 8 1 3 3)
         (window_It ex8_I1 ex8_I2 8 8 1 3 3) (all_pixels (clipped_window 8 8 1 3 3 ex8_I2))
         (du ! 3 ! 3) (dv ! 3 ! 3)"
    by blast
  have "solves_normal_equations (window_Ix ex8_I2 8 8 1 3 3) (window_Iy ex8_I2 8 8 1 3 3)
         (window_It ex8_I1 ex8_I2 8 8 1 3 3) (all_pixels (clipped_window 8 8 1 3 3 ex8_I2))
         (du ! 3 ! 3) (dv ! 3 ! 3)"
    using s exact_inv_is_inverse[OF M] by blast
  moreover from px sel(2) pos have "du ! 0 ! 0 = 0 \<and> dv ! 0 ! 0 = 0"
    by blast
  ultimately show "\<exists>du dv. faster_lucas_kanade_step exact_det exact_inv (\<lambda>I. ex8_R) ex8_I1 ex8_I2 2
        = Inr (du, dv) \<and>
      is_image 8 8 du \<and> is_image 8 8 dv \<and>
      solves_normal_equations (window_Ix ex8_I2 8 8 1 3 3) (window_Iy ex8_I2 8 8 1 3 3)
        (window_It ex8_I1 ex8_I2 8 8 1 3 3) (all_pixels (clipped_window 8 8 1 3 3 ex8_I2))
        (du ! 3 ! 3) (dv ! 3 ! 3) \<and>
      du ! 0 ! 0 = 0 \<and> dv ! 0 ! 0 = 0"
    using eq img by blast
  have bad: "\<exists>i<8. \<exists>j<8. selected ex8_R i j
               \<and> (\<exists>e. exact_inv (window_matrix (zeros (8, 8)) 8 8 1 i j) = Inl e)"
    using sel(1) lt ex8_flat_window by blast
  from faster_lucas_kanade_step_corners[where cornerHarris = "\<lambda>I. ex8_R"
      and np_linalg_det = exact_det and np_linalg_inv = exact_inv,
      OF ex8_images(1) is_image_zeros ex8_images(3) pos big pos exact_inv_2x2, unfolded k] bad
  show "\<exists>e. faster_lucas_kanade_step exact_det exact_inv (\<lambda>I. ex8_R) ex8_I1 (zeros (8, 8)) 2 = Inl e"
    by (simp only: if_True)
qed

text \<open>
  The value that the corner-restricted solver writes at the pixel \<open>(3, 3)\<close> of the 8x8
  example images with window size 2, whenever the detector selects that pixel and
  \<open>np.linalg.inv\<close> returns inverses.
\<close>

lemma ex8_corner_value:
  assumes inv: "\<forall>C M. np_linalg_inv C = Inr M \<longrightarrow> is_image 2 2 M \<and> is_inverse M C"
    and R: "is_image 8 8 R" "selected R 3 3"
    and eq: "faster_lucas_kanade_step np_linalg_det np_linalg_inv (\<lambda>I. R) ex8_I1 ex8_I2 2
             = Inr (du, dv)"
  shows "(du ! 3 ! 3, dv ! 3 ! 3) = (8907 / 164626, 6057 / 82313)"
proof -
  have k: "(2::nat) div 2 = 1" by simp
  have pos: "(0::nat) < 8" and big: "4 * (2::nat) \<le> min 8 8" by simp_all
  have lt: "(3::nat) < 8" by simp
  have inv2: "\<forall>C M. np_linalg_inv C = Inr M \<longrightarrow> is_image 2 2 M" using inv by blast
  note vals = faster_lucas_kanade_step_values[where cornerHarris = "\<lambda>I. R"
      and np_linalg_det = np_linalg_det and np_linalg_inv = np_linalg_inv,
      OF ex8_images(1,2) R(1) pos big pos inv2, unfolded k]
  have no: "\<not> (\<exists>i<8. \<exists>j<8. selected R i j \<and> isl (np_linalg_inv (window_matrix ex8_I2 8 8 1 i j)))"
  proof
    assume "\<exists>i<8. \<exists>j<8. selected R i j \<and> isl (np_linalg_inv (window_matrix ex8_I2 8 8 1 i j))"
    with vals have "\<exists>e. faster_lucas_kanade_step np_linalg_det np_linalg_inv (\<lambda>I. R) ex8_I1 ex8_I2 2
                        = Inl e"
      by (simp only: if_True)
    then show False using eq by simp
  qed
  with vals have "\<exists>du' dv'.
      faster_lucas_kanade_step np_linalg_det np_linalg_inv (\<lambda>I. R) ex8_I1 ex8_I2 2 = Inr (du', dv') \<and>
      is_image 8 8 du' \<and> is_image 8 8 dv' \<and>
      (\<forall>i<8. \<forall>j<8.
         du' ! i ! j = (if selected R i j
            then fst (inverse_times_rhs (projr (np_linalg_inv (window_matrix ex8_I2 8 8 1 i j)))
                   (window_Ix ex8_I2 8 8 1 i j) (window_Iy ex8_I2 8 8 1 i j)
                   (window_It ex8_I1 ex8_I2 8 8 1 i j) (all_pixels (clipped_window 8 8 1 i j ex8_I2)))
            else 0) \<and>
         dv' ! i ! j = (if selected R i j
            then snd (inverse_times_rhs (projr (np_linalg_inv (window_matrix ex8_I2 8 8 1 i j)))
                   (window_Ix ex8_I2 8 8 1 i j) (window_Iy ex8_I2 8 8 1 i j)
                   (window_It ex8_I1 ex8_I2 8 8 1 i j) (all_pixels (clipped_window 8 8 1 i j ex8_I2)))
            else 0))"
    by (simp only: if_False)
  then have v: "(du ! 3 ! 3, dv ! 3 ! 3)
      = inverse_times_rhs (projr (np_linalg_inv (window_matrix ex8_I2 8 8 1 3 3)))
          (window_Ix ex8_I2 8 8 1 3 3) (window_Iy ex8_I2 8 8 1 3 3)
          (window_It ex8_I1 ex8_I2 8 8 1 3 3) (all_pixels (clipped_window 8 8 1 3 3 ex8_I2))"
    using eq R(2) lt by (auto simp: prod_eq_iff)
  have "\<not> isl (np_linalg_inv (window_matrix ex8_I2 8 8 1 3 3))"
    using no R(2) lt by blast
  then obtain M where M: "np_linalg_inv (window_matrix ex8_I2 8 8 1 3 3) = Inr M"
    by (cases "np_linalg_inv (window_matrix ex8_I2 8 8 1 3 3)") simp_all
  then have "is_image 2 2 M" "is_inverse M (window_matrix ex8_I2 8 8 1 3 3)"
    using inv by blast+
  then have "exact_inv (window_matrix ex8_I2 8 8 1 3 3) = Inr M"
    by (rule is_inverse_unique)
  then have "M = [[573 / 5268032, - (31 / 329252)], [- (31 / 329252), 573 / 5268032]]"
    unfolding ex8_window_matrix ex8_window_inverse by simp
  then show ?thesis
    unfolding v M by (simp only: sum.sel ex8_window_value)
qed

text \<open>
  The claim C5 as the specification states it does not hold: the corner-restricted solver
  does not solve the dense solver's system. On the two 8x8 example images with window
  size 2 (a 3x3 window), whatever response map the detector returns, if it selects the
  pixel \<open>(3, 3)\<close>, whose window lies inside the image, then the corner-restricted solver
  writes \<open>(8907 / 164626, 6057 / 82313)\<close> there (for every \<open>np.linalg.inv\<close> that returns
  inverses; the call returns for the exact inverse and a detector that selects this pixel
  alone). This pair does not solve the dense solver's normal equations at \<open>(3, 3)\<close>, whose
  solution is \<open>(109 / 6720, 179 / 6720)\<close>: the gradients on the rim of the window are
  computed from the window alone.
\<close>

theorem faster_lucas_kanade_step_not_dense_system:
  "\<not> (\<exists>np_linalg_det np_linalg_inv R du dv.
        (\<forall>C M. np_linalg_inv C = Inr M \<longrightarrow> is_image 2 2 M \<and> is_inverse M C) \<and>
        is_image 8 8 R \<and> selected R 3 3 \<and>
        faster_lucas_kanade_step np_linalg_det np_linalg_inv (\<lambda>I. R) ex8_I1 ex8_I2 2 = Inr (du, dv) \<and>
        (du ! 3 ! 3, dv ! 3 ! 3) \<noteq> (8907 / 164626, 6057 / 82313)) \<and>
   (\<exists>du dv. faster_lucas_kanade_step exact_det exact_inv (\<lambda>I. ex8_R) ex8_I1 ex8_I2 2 = Inr (du, dv) \<and>
        (du ! 3 ! 3, dv ! 3 ! 3) = (8907 / 164626, 6057 / 82313)) \<and>
   \<not> solves_normal_equations (convolve2d ex8_I2 X_DERIVATIVE_FILTER)
       (convolve2d ex8_I2 Y_DERIVATIVE_FILTER) (np_sub ex8_I2 ex8_I1) (window_pixels 1 3 3)
       (8907 / 164626) (6057 / 82313) \<and>
   solves_normal_equations (convolve2d ex8_I2 X_DERIVATIVE_FILTER)
       (convolve2d ex8_I2 Y_DERIVATIVE_FILTER) (np_sub ex8_I2 ex8_I1) (window_pixels 1 3 3)
       (109 / 6720) (179 / 6720)"
proof (intro conjI)
  show "\<not> (\<exists>np_linalg_det np_linalg_inv R du dv.
        (\<forall>C M. np_linalg_inv C = Inr M \<longrightarrow> is_image 2 2 M \<and> is_inverse M C) \<and>
        is_image 8 8 R \<and> selected R 3 3 \<and>
        faster_lucas_kanade_step np_linalg_det np_linalg_inv (\<lambda>I. R) ex8_I1 ex8_I2 2 = Inr (du, dv) \<and>
        (du ! 3 ! 3, dv ! 3 ! 3) \<noteq> (8907 / 164626, 6057 / 82313))"
    using ex8_corner_value by blast
  have k: "(2::nat) div 2 = 1" by simp
  have pos: "(0::nat) < 8" and big: "4 * (2::nat) \<le> min 8 8" by simp_all
  have reg: "\<not> isl (exact_inv (window_matrix ex8_I2 8 8 1 3 3))"
    unfolding ex8_window_matrix ex8_window_inverse by simp
  have ok: "\<not> (\<exists>i<8. \<exists>j<8. selected ex8_R i j \<and> isl (exact_inv (window_matrix ex8_I2 8 8 1 i j)))"
    using ex8_selected reg by auto
  from faster_lucas_kanade_step_values[where cornerHarris = "\<lambda>I. ex8_R"
      and np_linalg_det = exact_det and np_linalg_inv = exact_inv,
      OF ex8_images(1,2,3) pos big pos exact_inv_2x2, unfolded k] ok
  obtain du dv where
    eq: "faster_lucas_kanade_step exact_det exact_inv (\<lambda>I. ex8_R) ex8_I1 ex8_I2 2 = Inr (du, dv)"
    by (simp only: if_False) blast
  have inv: "\<forall>C M. exact_inv C = Inr M \<longrightarrow> is_image 2 2 M \<and> is_inverse M C"
    using exact_inv_2x2 exact_inv_is_inverse by blast
  have sel: "selected ex8_R 3 3" using ex8_selected by simp
  from ex8_corner_value[OF inv ex8_images(3) sel eq] eq
  show "\<exists>du dv. faster_lucas_kanade_step exact_det exact_inv (\<lambda>I. ex8_R) ex8_I1 ex8_I2 2
                  = Inr (du, dv) \<and>
        (du ! 3 ! 3, dv ! 3 ! 3) = (8907 / 164626, 6057 / 82313)"
    by blast
  show "\<not> solves_normal_equations (convolve2d ex8_I2 X_DERIVATIVE_FILTER)
       (convolve2d ex8_I2 Y_DERIVATIVE_FILTER) (np_sub ex8_I2 ex8_I1) (window_pixels 1 3 3)
       (8907 / 164626) (6057 / 82313)"
    by (rule ex8_not_dense)
  show "solves_normal_equations (convolve2d ex8_I2 X_DERIVATIVE_FILTER)
       (convolve2d ex8_I2 Y_DERIVATIVE_FILTER) (np_sub ex8_I2 ex8_I1) (window_pixels 1 3 3)
       (109 / 6720) (179 / 6720)"
    by (rule ex8_dense_solution)
qed

section \<open>Properties of warp_image\<close>

lemma length_flatten: "is_image h w a \<Longrightarrow> length (flatten a) = h * w"
proof (induction a arbitrary: h)
  case Nil
  then show ?case by (simp add: is_image_def flatten_def)
next
  case (Cons r a)
  then obtain h' where h: "h = Suc h'" by (auto simp: is_image_def)
  with Cons.prems have "is_image h' w a" "length r = w" by (simp_all add: is_image_def)
  with Cons.IH[of h'] h show ?case by (simp add: flatten_def)
qed

lemma flatten_nth:
  assumes "is_image h w a" "i < h" "j < w"
  shows "flatten a ! (i * w + j) = a ! i ! j"
  using assms
proof (induction a arbitrary: h i)
  case Nil
  then show ?case by (simp add: is_image_def)
next
  case (Cons r a)
  then obtain h' where h: "h = Suc h'" by (auto simp: is_image_def)
  with Cons.prems have a: "is_image h' w a" and r: "length r = w" by (simp_all add: is_image_def)
  show ?case
  proof (cases i)
    case 0
    then show ?thesis using r Cons.prems(3) by (simp add: flatten_def nth_append)
  next
    case (Suc i')
    then have "i' < h'" using Cons.prems(2) h by simp
    from Cons.IH[OF a this Cons.prems(3)] show ?thesis
      using Suc r by (simp add: flatten_def nth_append)
  qed
qed

lemma reshape_image:
  assumes "length xs = h * w"
  shows "\<exists>a. reshape h w xs = Inr a \<and> is_image h w a \<and> (\<forall>i<h. \<forall>j<w. a ! i ! j = xs ! (i * w + j))"
proof -
  let ?a = "map (\<lambda>i. take w (drop (i * w) xs)) [0..<h]"
  have len: "length (take w (drop (i * w) xs)) = w" if "i < h" for i
  proof -
    have "Suc i * w \<le> h * w" using that by (intro mult_le_mono1) simp
    then show ?thesis using assms by simp
  qed
  have "is_image h w ?a" using len by (simp add: is_image_iff del: length_take)
  moreover have "?a ! i ! j = xs ! (i * w + j)" if "i < h" "j < w" for i j
  proof -
    have "Suc i * w \<le> h * w" using that by (intro mult_le_mono1) simp
    then have "i * w + j < length xs" using assms that by simp
    then show ?thesis using that by simp
  qed
  ultimately show ?thesis using assms by (simp add: reshape_def)
qed


lemma is_image_meshgrid: "is_image h w (meshgrid_x w h)" "is_image h w (meshgrid_y w h)"
  by (simp_all add: meshgrid_x_def meshgrid_y_def is_image_iff)

lemma is_image_np_scale: "is_image h w a \<Longrightarrow> is_image h w (np_scale a c)"
  by (simp add: np_scale_def is_image_iff)

lemma length_points_new:
  assumes "is_image h w u" "is_image h w v"
  shows "length (points_new w h u v) = h * w"
  using length_flatten[OF assms(1)] length_flatten[OF assms(2)]
    length_flatten[OF is_image_meshgrid(1)[where h = h and w = w]]
    length_flatten[OF is_image_meshgrid(2)[where h = h and w = w]]
  by (simp add: points_new_def np_add_flat_def)

lemma fill_nan_nth:
  assumes "length ys = length vs" "n < length vs"
  shows "fill_nan ys vs ! n = (case ys ! n of None \<Rightarrow> vs ! n | Some y \<Rightarrow> y)"
  using assms by (simp add: fill_nan_def)

lemma warp_image_eq:
  fixes h w :: nat
  assumes "is_image h w img" "0 < h" "0 < width u" "0 < height v"
    and "resize u (w, h) = Inr u'" "resize v (w, h) = Inr v'"
    and "is_image h w u'" "is_image h w v'"
    and "griddata (zip (flatten (meshgrid_x w h)) (flatten (meshgrid_y w h))) (flatten img)
           (points_new w h (np_scale u' (real w / real (width u)))
                           (np_scale v' (real h / real (height v)))) = Inr ys"
    and "length ys = length (points_new w h (np_scale u' (real w / real (width u)))
                                             (np_scale v' (real h / real (height v))))"
  shows "\<exists>out. warp_image resize griddata img u v = Inr out \<and> is_image h w out \<and>
           (\<forall>i<h. \<forall>j<w. out ! i ! j = (case ys ! (i * w + j) of None \<Rightarrow> img ! i ! j | Some y \<Rightarrow> y))"
proof -
  have hw: "height img = h" "width img = w"
    using assms(1,2) by (simp_all add: is_image_height is_image_width)
  have len_ys: "length ys = h * w"
    using assms(10) length_points_new[OF is_image_np_scale[OF assms(7)] is_image_np_scale[OF assms(8)]]
    by simp
  have len_img: "length (flatten img) = h * w"
    by (rule length_flatten[OF assms(1)])
  have len_fill: "length (fill_nan ys (flatten img)) = h * w"
    using len_ys len_img by (simp add: fill_nan_def)
  from reshape_image[OF len_fill] obtain out where
    out: "reshape h w (fill_nan ys (flatten img)) = Inr out" "is_image h w out"
      "\<forall>i<h. \<forall>j<w. out ! i ! j = fill_nan ys (flatten img) ! (i * w + j)"
    by blast
  have warp: "warp_image resize griddata img u v = Inr out"
    using assms(3,4) by (simp add: warp_image_def Let_def hw assms(5,6,9) out(1))
  have "out ! i ! j = (case ys ! (i * w + j) of None \<Rightarrow> img ! i ! j | Some y \<Rightarrow> y)"
    if ij: "i < h" "j < w" for i j
  proof -
    have "Suc i * w \<le> h * w" using ij by (intro mult_le_mono1) simp
    then have n: "i * w + j < length (flatten img)" using ij len_img by simp
    have "out ! i ! j = fill_nan ys (flatten img) ! (i * w + j)"
      using out(3) ij by simp
    also have "\<dots> = (case ys ! (i * w + j) of None \<Rightarrow> flatten img ! (i * w + j) | Some y \<Rightarrow> y)"
      using len_ys len_img n by (intro fill_nan_nth) simp_all
    finally show ?thesis unfolding flatten_nth[OF assms(1) ij] .
  qed
  then show ?thesis using warp out(2) by blast
qed

text \<open>
  Claim C7: for every image and displacement fields \<open>u\<close>, \<open>v\<close> (of any shape with at least
  one column and one row), provided the two \<open>cv2.resize\<close> calls and the \<open>griddata\<close> call
  succeed with arrays of the requested sizes, \<open>warp_image\<close> returns an array of exactly
  the image's shape; every output pixel that the interpolation marks invalid (\<open>nan\<close>) is
  the original image's pixel at that location, and every other pixel is the interpolated
  value.
\<close>

theorem warp_image_shape_and_holes:
  fixes h w :: nat
  assumes "is_image h w img" "0 < h" "0 < width u" "0 < height v"
    and "resize u (w, h) = Inr u'" "resize v (w, h) = Inr v'"
    and "is_image h w u'" "is_image h w v'"
    and "griddata (zip (flatten (meshgrid_x w h)) (flatten (meshgrid_y w h))) (flatten img)
           (points_new w h (np_scale u' (real w / real (width u)))
                           (np_scale v' (real h / real (height v)))) = Inr ys"
    and "length ys = length (points_new w h (np_scale u' (real w / real (width u)))
                                             (np_scale v' (real h / real (height v))))"
  shows "\<exists>out. warp_image resize griddata img u v = Inr out \<and> is_image h w out \<and>
           (\<forall>i<h. \<forall>j<w.
              (ys ! (i * w + j) = None \<longrightarrow> out ! i ! j = img ! i ! j) \<and>
              (\<forall>y. ys ! (i * w + j) = Some y \<longrightarrow> out ! i ! j = y))"
proof -
  from warp_image_eq[where resize = resize and griddata = griddata, OF assms] obtain out where
    "warp_image resize griddata img u v = Inr out" "is_image h w out"
    and px: "\<forall>i<h. \<forall>j<w. out ! i ! j = (case ys ! (i * w + j) of None \<Rightarrow> img ! i ! j | Some y \<Rightarrow> y)"
    by blast
  moreover have "(ys ! (i * w + j) = None \<longrightarrow> out ! i ! j = img ! i ! j) \<and>
              (\<forall>y. ys ! (i * w + j) = Some y \<longrightarrow> out ! i ! j = y)" if "i < h" "j < w" for i j
    using px that by (auto split: option.splits)
  ultimately show ?thesis by blast
qed

lemma np_scale_zeros: "np_scale (zeros s) c = zeros s"
  by (simp add: np_scale_def zeros_def)

lemma flatten_zeros: "flatten (zeros (h, w)) = replicate (h * w) 0"
  by (induction h) (simp_all add: flatten_def zeros_def replicate_add)

lemma points_new_zeros:
  "points_new w h (zeros (h, w)) (zeros (h, w))
   = zip (flatten (meshgrid_x w h)) (flatten (meshgrid_y w h))"
proof -
  have "map2 (+) xs (replicate (length xs) 0) = xs" for xs :: "real list"
    by (induction xs) simp_all
  from this[of "flatten (meshgrid_x w h)"] this[of "flatten (meshgrid_y w h)"]
  show ?thesis
    by (simp add: points_new_def np_add_flat_def flatten_zeros
        length_flatten[OF is_image_meshgrid(1)[where h = h and w = w]]
        length_flatten[OF is_image_meshgrid(2)[where h = h and w = w]])
qed

text \<open>
  Claim C8: warping with all-zero displacement fields is the identity away from
  interpolation effects. With zero fields the image is sampled at the pixel grid itself
  (resizing an all-zero field gives an all-zero field), and the output equals the image at
  every pixel where the interpolant either returns the sample it was given at that grid
  point or marks the pixel invalid (the hole is then filled from the image).
\<close>

theorem warp_image_zero_displacement:
  fixes h w :: nat
  assumes "is_image h w img" "0 < h" "0 < hu" "0 < wu" "0 < hv" "0 < wv"
    and "resize (zeros (hu, wu)) (w, h) = Inr (zeros (h, w))"
    and "resize (zeros (hv, wv)) (w, h) = Inr (zeros (h, w))"
    and "griddata (zip (flatten (meshgrid_x w h)) (flatten (meshgrid_y w h))) (flatten img)
           (zip (flatten (meshgrid_x w h)) (flatten (meshgrid_y w h))) = Inr ys"
    and "length ys = h * w"
  shows "\<exists>out. warp_image resize griddata img (zeros (hu, wu)) (zeros (hv, wv)) = Inr out \<and>
           is_image h w out \<and>
           (\<forall>i<h. \<forall>j<w.
              ys ! (i * w + j) = None \<or> ys ! (i * w + j) = Some (img ! i ! j)
                \<longrightarrow> out ! i ! j = img ! i ! j)"
proof -
  have wu: "0 < width (zeros (hu, wu))" and hv: "0 < height (zeros (hv, wv))"
    using assms(3-6) by (cases hu; simp add: zeros_def width_def height_def)+
  have pn: "points_new w h (np_scale (zeros (h, w)) (real w / real (width (zeros (hu, wu)))))
              (np_scale (zeros (h, w)) (real h / real (height (zeros (hv, wv)))))
            = zip (flatten (meshgrid_x w h)) (flatten (meshgrid_y w h))"
    by (simp only: np_scale_zeros points_new_zeros)
  have len: "length ys = length (points_new w h
               (np_scale (zeros (h, w)) (real w / real (width (zeros (hu, wu)))))
               (np_scale (zeros (h, w)) (real h / real (height (zeros (hv, wv))))))"
    unfolding pn using assms(10)
    by (simp add: length_flatten[OF is_image_meshgrid(1)[where h = h and w = w]]
        length_flatten[OF is_image_meshgrid(2)[where h = h and w = w]])
  have gd: "griddata (zip (flatten (meshgrid_x w h)) (flatten (meshgrid_y w h))) (flatten img)
              (points_new w h (np_scale (zeros (h, w)) (real w / real (width (zeros (hu, wu)))))
                 (np_scale (zeros (h, w)) (real h / real (height (zeros (hv, wv)))))) = Inr ys"
    using assms(9) by (simp only: pn)
  from warp_image_eq[where resize = resize and griddata = griddata,
      OF assms(1,2) wu hv assms(7,8) is_image_zeros[of h w] is_image_zeros[of h w] gd len]
  obtain out where
    "warp_image resize griddata img (zeros (hu, wu)) (zeros (hv, wv)) = Inr out" "is_image h w out"
    and px: "\<forall>i<h. \<forall>j<w. out ! i ! j = (case ys ! (i * w + j) of None \<Rightarrow> img ! i ! j | Some y \<Rightarrow> y)"
    by blast
  moreover have "ys ! (i * w + j) = None \<or> ys ! (i * w + j) = Some (img ! i ! j)
                \<longrightarrow> out ! i ! j = img ! i ! j" if "i < h" "j < w" for i j
    using px that by (auto split: option.splits)
  ultimately show ?thesis by blast
qed

theorem warp_image_shape_and_holes_witness:
  "\<exists>out. warp_image ex_resize ex_griddata ex_I1 [[1 / 5]] [[0]] = Inr out \<and> is_image 5 5 out \<and>
      out ! 2 ! 4 = ex_I1 ! 2 ! 4 \<and> out ! 2 ! 1 = 12"
proof -
  let ?u' = "map (\<lambda>i. map (\<lambda>j. 1 / 5) [0..<5]) [0..<5] :: image"
  let ?v' = "zeros (5, 5)"
  let ?pts = "zip (flatten (meshgrid_x 5 5)) (flatten (meshgrid_y 5 5))"
  let ?xi = "points_new 5 5 (np_scale ?u' (real 5 / real (width [[1 / 5 :: real]])))
                            (np_scale ?v' (real 5 / real (height [[0 :: real]])))"
  let ?ys = "map (map_of (zip ?pts (flatten ex_I1))) ?xi"
  have pos: "(0::nat) < 5" "0 < width [[1 / 5 :: real]]" "0 < height [[0 :: real]]"
    by (simp_all add: width_def height_def)
  have r1: "ex_resize [[1 / 5]] (5, 5) = Inr ?u'" by code_simp
  have r2: "ex_resize [[0]] (5, 5) = Inr ?v'" by code_simp
  have i1: "is_image 5 5 ?u'" by (simp add: is_image_iff)
  have g: "ex_griddata ?pts (flatten ex_I1) ?xi = Inr ?ys"
    by (simp add: ex_griddata_def)
  have len: "length ?ys = length ?xi" by simp
  have lt: "(2::nat) < 5" "(4::nat) < 5" "(1::nat) < 5" by simp_all
  have hole: "?ys ! (2 * 5 + 4) = None" by code_simp
  have val: "?ys ! (2 * 5 + 1) = Some 12" by code_simp
  from warp_image_shape_and_holes[where resize = ex_resize and griddata = ex_griddata,
      OF ex_images(1) pos r1 r2 i1 is_image_zeros g len]
  obtain out where "warp_image ex_resize ex_griddata ex_I1 [[1 / 5]] [[0]] = Inr out" "is_image 5 5 out"
    and px: "\<forall>i<5. \<forall>j<5.
              (?ys ! (i * 5 + j) = None \<longrightarrow> out ! i ! j = ex_I1 ! i ! j) \<and>
              (\<forall>y. ?ys ! (i * 5 + j) = Some y \<longrightarrow> out ! i ! j = y)"
    by blast
  moreover from px[rule_format, OF lt(1) lt(2)] hole have "out ! 2 ! 4 = ex_I1 ! 2 ! 4" by blast
  moreover from px[rule_format, OF lt(1) lt(3)] val have "out ! 2 ! 1 = 12" by blast
  ultimately show ?thesis by blast
qed


theorem warp_image_zero_displacement_witness:
  "\<exists>out. warp_image ex_resize ex_griddata ex_I1 (zeros (2, 3)) (zeros (1, 1)) = Inr out \<and>
      is_image 5 5 out \<and> out ! 2 ! 2 = ex_I1 ! 2 ! 2"
proof -
  let ?pts = "zip (flatten (meshgrid_x 5 5)) (flatten (meshgrid_y 5 5))"
  let ?ys = "map (map_of (zip ?pts (flatten ex_I1))) ?pts"
  have pos: "(0::nat) < 5" "(0::nat) < 2" "(0::nat) < 3" "(0::nat) < 1"
    by simp_all
  have r1: "ex_resize (zeros (2, 3)) (5, 5) = Inr (zeros (5, 5))" by code_simp
  have r2: "ex_resize (zeros (1, 1)) (5, 5) = Inr (zeros (5, 5))" by code_simp
  have g: "ex_griddata ?pts (flatten ex_I1) ?pts = Inr ?ys"
    by (simp add: ex_griddata_def)
  have len: "length ?ys = 5 * 5" by code_simp
  have lt: "(2::nat) < 5" by simp
  have exact: "?ys ! (2 * 5 + 2) = None \<or> ?ys ! (2 * 5 + 2) = Some (ex_I1 ! 2 ! 2)" by code_simp
  from warp_image_zero_displacement[where resize = ex_resize and griddata = ex_griddata,
      OF ex_images(1) pos(1,2,3,4,4) r1 r2 g len]
  obtain out where "warp_image ex_resize ex_griddata ex_I1 (zeros (2, 3)) (zeros (1, 1)) = Inr out"
    "is_image 5 5 out"
    and px: "\<forall>i<5. \<forall>j<5.
              ?ys ! (i * 5 + j) = None \<or> ?ys ! (i * 5 + j) = Some (ex_I1 ! i ! j)
                \<longrightarrow> out ! i ! j = ex_I1 ! i ! j"
    by blast
  moreover from px[rule_format, OF lt lt] exact have "out ! 2 ! 2 = ex_I1 ! 2 ! 2" by blast
  ultimately show ?thesis by blast
qed

section \<open>Properties of lucas_kanade_optical_flow\<close>

lemma ceil_factor_pos:
  fixes h n :: nat
  assumes "0 < h"
  shows "0 < nat \<lceil>real h / 2 ^ n\<rceil>"
proof -
  have "0 < real h / 2 ^ n" using assms by simp
  then have "0 < \<lceil>real h / 2 ^ n\<rceil>" by (simp only: zero_less_ceiling)
  then show ?thesis by simp
qed

lemma ceil_factor_covers:
  fixes h n :: nat
  shows "h \<le> nat \<lceil>real h / 2 ^ n\<rceil> * 2 ^ n"
proof -
  let ?c = "\<lceil>real h / 2 ^ n\<rceil>"
  have nonneg: "0 \<le> ?c" by (smt (verit) divide_nonneg_nonneg of_nat_0_le_iff zero_le_ceiling zero_le_numeral zero_le_power)
  have "real h / 2 ^ n \<le> of_int ?c" by (rule le_of_int_ceiling)
  moreover have "(0::real) < 2 ^ n" by simp
  ultimately have "real h \<le> of_int ?c * 2 ^ n" by (simp only: pos_divide_le_eq)
  also have "of_int ?c * 2 ^ n = real (nat ?c * 2 ^ n)" using nonneg by simp
  finally show ?thesis by (simp only: of_nat_le_iff)
qed

lemma image_size_props:
  assumes "is_image h w I1" "0 < h" "0 < w"
  obtains H W where "image_size I1 n = (W, H)" "0 < H" "0 < W" "h \<le> H" "w \<le> W"
    "2 ^ n dvd H" "2 ^ n dvd W"
proof -
  let ?hf = "nat \<lceil>real h / 2 ^ n\<rceil>" and ?wf = "nat \<lceil>real w / 2 ^ n\<rceil>"
  have "image_size I1 n = (?wf * 2 ^ n, ?hf * 2 ^ n)"
    by (simp add: image_size_def Let_def is_image_height[OF assms(1)] is_image_width[OF assms(1,2)])
  moreover have "0 < ?hf * 2 ^ n" "0 < ?wf * 2 ^ n"
    using ceil_factor_pos[OF assms(2), of n] ceil_factor_pos[OF assms(3), of n] by simp_all
  moreover have "h \<le> ?hf * 2 ^ n" "w \<le> ?wf * 2 ^ n" by (rule ceil_factor_covers)+
  moreover have "2 ^ n dvd ?hf * 2 ^ n" "2 ^ n dvd ?wf * 2 ^ n" by simp_all
  ultimately show ?thesis using that by blast
qed

lemma resize_if_needed_image:
  assumes "is_image h w I" "0 < h" "0 < w" "0 < H" "0 < W" "h \<le> H" "w \<le> W"
    and "\<And>a w h. 0 < height a \<Longrightarrow> 0 < width a \<Longrightarrow> 0 < w \<Longrightarrow> 0 < h
           \<Longrightarrow> \<exists>b. resize a (w, h) = Inr b \<and> is_image h w b"
  shows "\<exists>b. resize_if_needed resize I (W, H) = Inr b \<and> is_image H W b"
proof (cases "shape I = (W, H)")
  case True
  then have "h = W" "w = H" using shape_image[OF assms(1,2)] by simp_all
  then have "h = H" "w = W" using assms(6,7) by simp_all
  then show ?thesis using True assms(1) by (simp add: resize_if_needed_def)
next
  case False
  have "0 < height I" "0 < width I"
    using assms(1-3) by (simp_all add: is_image_height is_image_width)
  from assms(8)[OF this assms(5,4)] show ?thesis using False by (simp add: resize_if_needed_def)
qed

lemma for_loop_invariant:
  assumes "\<And>i s. i \<in> set is \<Longrightarrow> P s \<Longrightarrow> \<exists>s'. body i s = Inr s' \<and> P s'" "P s"
  shows "\<exists>s'. for_loop is body s = Inr s' \<and> P s'"
  using assms
proof (induction "is" arbitrary: s)
  case Nil
  then show ?case by simp
next
  case (Cons i "is")
  from Cons.prems(1)[of i s] Cons.prems(2) obtain s1 where s1: "body i s = Inr s1" "P s1" by auto
  from Cons.IH[of s1] Cons.prems(1) s1(2) obtain s' where "for_loop is body s1 = Inr s'" "P s'"
    by auto
  then show ?case using s1(1) by auto
qed

lemma for_loop_down:
  assumes "\<And>l s. l \<le> n \<Longrightarrow> Q l s \<Longrightarrow> \<exists>s'. body l s = Inr s' \<and> (if l = 0 then R s' else Q (l - 1) s')"
    and "Q n s"
  shows "\<exists>s'. for_loop (rev [0..<Suc n]) body s = Inr s' \<and> R s'"
  using assms
proof (induction n arbitrary: s)
  case 0
  from "0.prems"(1)[of 0 s] "0.prems"(2) show ?case by auto
next
  case (Suc n)
  from Suc.prems(1)[of "Suc n" s] Suc.prems(2) obtain s1 where
    s1: "body (Suc n) s = Inr s1" "Q n s1" by auto
  have "\<exists>s'. for_loop (rev [0..<Suc n]) body s1 = Inr s' \<and> R s'"
    by (rule Suc.IH[OF _ s1(2)]) (use Suc.prems(1) in auto)
  then show ?case using s1(1) by simp
qed

lemma is_image_np_add: "is_image h w a \<Longrightarrow> is_image h w b \<Longrightarrow> is_image h w (np_add a b)"
  by (auto simp: is_image_iff np_add_def)

lemma warp_image_returns:
  fixes h w :: nat
  assumes "is_image h w img" "0 < h" "0 < w"
    and "is_image hu wu u" "0 < hu" "0 < wu" "is_image hv wv v" "0 < hv" "0 < wv"
    and resize_ok: "\<And>a w h. 0 < height a \<Longrightarrow> 0 < width a \<Longrightarrow> 0 < w \<Longrightarrow> 0 < h
           \<Longrightarrow> \<exists>b. resize a (w, h) = Inr b \<and> is_image h w b"
    and griddata_ok: "\<And>p vs xi. \<exists>ys. griddata p vs xi = Inr ys \<and> length ys = length xi"
  shows "\<exists>out. warp_image resize griddata img u v = Inr out \<and> is_image h w out"
proof -
  have pu: "0 < height u" "0 < width u" and pv: "0 < height v" "0 < width v"
    using assms(4-9) by (simp_all add: is_image_height is_image_width)
  from resize_ok[OF pu assms(3,2)] obtain u' where u': "resize u (w, h) = Inr u'" "is_image h w u'"
    by blast
  from resize_ok[OF pv assms(3,2)] obtain v' where v': "resize v (w, h) = Inr v'" "is_image h w v'"
    by blast
  from griddata_ok obtain ys where
    ys: "griddata (zip (flatten (meshgrid_x w h)) (flatten (meshgrid_y w h))) (flatten img)
           (points_new w h (np_scale u' (real w / real (width u)))
                           (np_scale v' (real h / real (height v)))) = Inr ys"
        "length ys = length (points_new w h (np_scale u' (real w / real (width u)))
                                             (np_scale v' (real h / real (height v))))"
    by blast
  from warp_image_eq[where resize = resize and griddata = griddata,
      OF assms(1,2) pu(2) pv(1) u'(1) v'(1) u'(2) v'(2) ys]
  show ?thesis by blast
qed

lemma lucas_kanade_step_returns:
  assumes "is_image h w I1" "is_image h w I2" "0 < h"
    and inv_ok: "\<And>C. np_linalg_det C > epsilon \<Longrightarrow> \<exists>M. np_linalg_inv C = Inr M \<and> is_image 2 2 M"
  shows "\<exists>du dv. lucas_kanade_step np_linalg_det np_linalg_inv I1 I2 window_size = Inr (du, dv) \<and>
           is_image h w du \<and> is_image h w dv"
  using lucas_kanade_step_values[where np_linalg_det = np_linalg_det
      and np_linalg_inv = np_linalg_inv, OF assms, of window_size] by blast

lemma flow_iteration_returns:
  fixes h w :: nat
  assumes "is_image h w I1_level" "is_image h w I2_level" "0 < h" "0 < w"
    and "is_image h w u" "is_image h w v" "is_image h w I2_warp"
    and resize_ok: "\<And>a w h. 0 < height a \<Longrightarrow> 0 < width a \<Longrightarrow> 0 < w \<Longrightarrow> 0 < h
           \<Longrightarrow> \<exists>b. resize a (w, h) = Inr b \<and> is_image h w b"
    and griddata_ok: "\<And>p vs xi. \<exists>ys. griddata p vs xi = Inr ys \<and> length ys = length xi"
    and inv_ok: "\<And>C. np_linalg_det C > epsilon \<Longrightarrow> \<exists>M. np_linalg_inv C = Inr M \<and> is_image 2 2 M"
  shows "\<exists>u' v' I2_warp'.
           flow_iteration np_linalg_det np_linalg_inv resize griddata I1_level I2_level window_size
               iter (u, v, I2_warp)
             = Inr (u', v', I2_warp') \<and>
           is_image h w u' \<and> is_image h w v' \<and> is_image h w I2_warp'"
proof -
  from lucas_kanade_step_returns[where np_linalg_det = np_linalg_det
      and np_linalg_inv = np_linalg_inv, OF assms(1,7,3) inv_ok, of window_size] obtain du dv where
    step: "lucas_kanade_step np_linalg_det np_linalg_inv I1_level I2_warp window_size = Inr (du, dv)"
      "is_image h w du" "is_image h w dv"
    by blast
  have u: "is_image h w (np_add u du)" and v: "is_image h w (np_add v dv)"
    using assms(5,6) step(2,3) by (simp_all add: is_image_np_add)
  from warp_image_returns[where resize = resize and griddata = griddata,
      OF assms(2,3,4) u assms(3,4) v assms(3,4) resize_ok griddata_ok]
  obtain out where "warp_image resize griddata I2_level (np_add u du) (np_add v dv) = Inr out"
    "is_image h w out"
    by blast
  then show ?thesis
    using step(1) u v
    by (simp add: flow_iteration_def Let_def shape_image[OF assms(1,3)] shape_image[OF assms(7,3)])
qed

lemma flow_level_returns:
  fixes Hd Wd :: "nat \<Rightarrow> nat"
  assumes levels: "\<And>l. l \<le> n \<Longrightarrow> is_image (Hd l) (Wd l) (pyramid_I1 ! l) \<and>
                     is_image (Hd l) (Wd l) (pyarmid_I2 ! l) \<and> 0 < Hd l \<and> 0 < Wd l"
    and "level \<le> n" "is_image (Hd level) (Wd level) u" "is_image (Hd level) (Wd level) v"
    and resize_ok: "\<And>a w h. 0 < height a \<Longrightarrow> 0 < width a \<Longrightarrow> 0 < w \<Longrightarrow> 0 < h
           \<Longrightarrow> \<exists>b. resize a (w, h) = Inr b \<and> is_image h w b"
    and griddata_ok: "\<And>p vs xi. \<exists>ys. griddata p vs xi = Inr ys \<and> length ys = length xi"
    and inv_ok: "\<And>C. np_linalg_det C > epsilon \<Longrightarrow> \<exists>M. np_linalg_inv C = Inr M \<and> is_image 2 2 M"
  shows "\<exists>u' v'. flow_level np_linalg_det np_linalg_inv resize griddata pyramid_I1 pyarmid_I2
                    window_size max_iter level (u, v)
                    = Inr (u', v') \<and>
           (if level = 0 then is_image (Hd 0) (Wd 0) u' \<and> is_image (Hd 0) (Wd 0) v'
            else is_image (Hd (level - 1)) (Wd (level - 1)) u' \<and>
                 is_image (Hd (level - 1)) (Wd (level - 1)) v')"
proof -
  let ?h = "Hd level" and ?w = "Wd level"
  let ?I1 = "pyramid_I1 ! level" and ?I2 = "pyarmid_I2 ! level"
  from levels[OF assms(2)] have I1: "is_image ?h ?w ?I1" and I2: "is_image ?h ?w ?I2"
    and pos: "0 < ?h" "0 < ?w" by simp_all
  from warp_image_returns[where resize = resize and griddata = griddata,
      OF I2 pos assms(3) pos assms(4) pos resize_ok griddata_ok]
  obtain I2_warp where warp: "warp_image resize griddata ?I2 u v = Inr I2_warp"
    "is_image ?h ?w I2_warp" by blast
  let ?P = "\<lambda>st :: image \<times> image \<times> image. is_image ?h ?w (fst st) \<and> is_image ?h ?w (fst (snd st)) \<and> is_image ?h ?w (snd (snd st))"
  have "\<exists>s'. for_loop [0..<nat max_iter]
                 (flow_iteration np_linalg_det np_linalg_inv resize griddata ?I1 ?I2 window_size)
                 (u, v, I2_warp) = Inr s' \<and> ?P s'"
  proof (rule for_loop_invariant[where P = ?P])
    fix i and st :: "image \<times> image \<times> image" assume "?P st"
    with flow_iteration_returns[where resize = resize and griddata = griddata
        and np_linalg_det = np_linalg_det and np_linalg_inv = np_linalg_inv
        and u = "fst st" and v = "fst (snd st)" and ?I2_warp = "snd (snd st)"
        and window_size = window_size and iter = i,
        OF I1 I2 pos _ _ _ resize_ok griddata_ok inv_ok]
    show "\<exists>s'. flow_iteration np_linalg_det np_linalg_inv resize griddata ?I1 ?I2 window_size i st
               = Inr s' \<and> ?P s'"
      by auto
  next
    show "?P (u, v, I2_warp)" using assms(3,4) warp(2) by simp
  qed
  then obtain u1 v1 w1 where loop: "for_loop [0..<nat max_iter]
      (flow_iteration np_linalg_det np_linalg_inv resize griddata ?I1 ?I2 window_size)
      (u, v, I2_warp) = Inr (u1, v1, w1)"
    and u1: "is_image ?h ?w u1" and v1: "is_image ?h ?w v1"
    by (metis prod.collapse)
  show ?thesis
  proof (cases "level = 0")
    case True
    then show ?thesis
      using warp(1) loop u1 v1 by (simp add: flow_level_def Let_def)
  next
    case False
    then have prev: "level - 1 \<le> n" using assms(2) by simp
    let ?h' = "Hd (level - 1)" and ?w' = "Wd (level - 1)"
    from levels[OF prev] have P2: "is_image ?h' ?w' (pyarmid_I2 ! (level - 1))"
      and pos': "0 < ?h'" "0 < ?w'" by simp_all
    have dims: "height (pyarmid_I2 ! (level - 1)) = ?h'" "width (pyarmid_I2 ! (level - 1)) = ?w'"
      using P2 pos' by (simp_all add: is_image_height is_image_width)
    have pu: "0 < height u1" "0 < width u1" and pv: "0 < height v1" "0 < width v1"
      using u1 v1 pos by (simp_all add: is_image_height is_image_width)
    from resize_ok[OF pu pos'(2,1)] obtain u2 where u2: "resize u1 (?w', ?h') = Inr u2"
      "is_image ?h' ?w' u2" by blast
    from resize_ok[OF pv pos'(2,1)] obtain v2 where v2: "resize v1 (?w', ?h') = Inr v2"
      "is_image ?h' ?w' v2" by blast
    show ?thesis
      unfolding flow_level_def Let_def dims fst_conv snd_conv warp(1) sum.case loop prod.case
        u2(1) v2(1)
      using False u2(2) v2(2) by (simp add: is_image_np_scale)
  qed
qed

lemma pyramid_levels_nth: "l \<le> n \<Longrightarrow> pyramid_levels img n ! l = (reduce ^^ l) img"
  using nth_map_upt[of l "Suc n" 0 "\<lambda>l. (reduce ^^ l) img"]
  by (simp add: pyramid_levels_def del: upt_Suc)

lemma pyramid_levels_last: "last (pyramid_levels img n) = (reduce ^^ n) img"
  by (simp add: pyramid_levels_def)

lemma build_pyramid_even:
  assumes "is_image H W I" "0 < H" "0 < W" "2 ^ n dvd H" "0 < n"
  shows "build_pyramid I (int n) = Inr (pyramid_levels I n)"
proof -
  have "2 dvd H" using assms(4,5) by (metis dvd_power dvd_trans)
  then have "H \<noteq> 1" by auto
  then show ?thesis
    using build_pyramid_levels[OF assms(1-3), of "int n"] assms(5) by simp
qed

text \<open>
  Claim C6 says that the flow field returned by \<open>lucas_kanade_optical_flow\<close> has the shape
  of the input \<open>I1\<close>. The program returns it at the shape \<open>IMAGE_SIZE\<close>, each dimension of
  \<open>I1\<close> rounded up to a multiple of \<open>2 ** num_levels\<close>: for \<open>num_levels \<ge> 1\<close>, non-empty
  images (\<open>I2\<close> not of the transposed shape of \<open>IMAGE_SIZE\<close>), and library calls that
  succeed with arrays of the requested sizes (\<open>np.linalg.inv\<close> with a 2x2 matrix where
  \<open>np.linalg.det\<close> has returned more than \<open>1e-4\<close>), the call returns \<open>(u, v)\<close> with
  \<open>snd IMAGE_SIZE\<close> rows and \<open>fst IMAGE_SIZE\<close> columns.
\<close>

theorem lucas_kanade_optical_flow_shape:
  fixes h w h2 w2 :: nat
  assumes "is_image h w I1" "0 < h" "0 < w" "is_image h2 w2 I2" "0 < h2" "0 < w2"
    and "0 < num_levels"
    and "shape I2 = image_size I1 (nat num_levels) \<longrightarrow> h2 = w2"
    and resize_ok: "\<And>a w h. 0 < height a \<Longrightarrow> 0 < width a \<Longrightarrow> 0 < w \<Longrightarrow> 0 < h
           \<Longrightarrow> \<exists>b. resize a (w, h) = Inr b \<and> is_image h w b"
    and griddata_ok: "\<And>p vs xi. \<exists>ys. griddata p vs xi = Inr ys \<and> length ys = length xi"
    and inv_ok: "\<And>C. np_linalg_det C > epsilon \<Longrightarrow> \<exists>M. np_linalg_inv C = Inr M \<and> is_image 2 2 M"
  shows "\<exists>u v. lucas_kanade_optical_flow np_linalg_det np_linalg_inv resize griddata I1 I2
                  window_size max_iter num_levels
                  = Inr (u, v) \<and>
           is_image (snd (image_size I1 (nat num_levels))) (fst (image_size I1 (nat num_levels))) u \<and>
           is_image (snd (image_size I1 (nat num_levels))) (fst (image_size I1 (nat num_levels))) v"
proof -
  let ?n = "nat num_levels"
  have n: "0 < ?n" "num_levels = int ?n" "\<not> num_levels < 0" using assms(7) by simp_all
  from image_size_props[OF assms(1-3), of ?n] obtain H W where
    size: "image_size I1 ?n = (W, H)" and pos: "0 < H" "0 < W" and le: "h \<le> H" "w \<le> W"
    and dvd: "2 ^ ?n dvd H" "2 ^ ?n dvd W"
    by blast
  from resize_if_needed_image[where resize = resize, OF assms(1-3) pos le resize_ok]
  obtain I1' where I1': "resize_if_needed resize I1 (W, H) = Inr I1'" "is_image H W I1'"
    by blast
  have "\<exists>b. resize_if_needed resize I2 (W, H) = Inr b \<and> is_image H W b"
  proof (cases "shape I2 = (W, H)")
    case True
    then have "h2 = W" "w2 = H" using shape_image[OF assms(4,5)] by simp_all
    moreover have "h2 = w2" using assms(8) True size by simp
    ultimately show ?thesis using True assms(4) by (simp add: resize_if_needed_def)
  next
    case False
    have "0 < height I2" "0 < width I2"
      using assms(4-6) by (simp_all add: is_image_height is_image_width)
    from resize_ok[OF this pos(2,1)] show ?thesis using False by (simp add: resize_if_needed_def)
  qed
  then obtain I2' where I2': "resize_if_needed resize I2 (W, H) = Inr I2'" "is_image H W I2'"
    by blast
  have p1: "build_pyramid I1' num_levels = Inr (pyramid_levels I1' ?n)"
    using build_pyramid_even[OF I1'(2) pos dvd(1) n(1)] n(2) by simp
  have p2: "build_pyramid I2' num_levels = Inr (pyramid_levels I2' ?n)"
    using build_pyramid_even[OF I2'(2) pos dvd(1) n(1)] n(2) by simp
  let ?Hd = "\<lambda>l. (half_up ^^ l) H" and ?Wd = "\<lambda>l. (half_up ^^ l) W"
  have levels: "is_image (?Hd l) (?Wd l) (pyramid_levels I1' ?n ! l) \<and>
                is_image (?Hd l) (?Wd l) (pyramid_levels I2' ?n ! l) \<and> 0 < ?Hd l \<and> 0 < ?Wd l"
    if "l \<le> ?n" for l
    using that is_image_level[OF I1'(2) pos(1), of l] is_image_level[OF I2'(2) pos(1), of l]
      half_up_pow_pos[OF pos(1), of l] half_up_pow_pos[OF pos(2), of l]
    by (simp add: pyramid_levels_nth)
  have last: "shape (last (pyramid_levels I2' ?n)) = (?Hd ?n, ?Wd ?n)"
    using is_image_level[OF I2'(2) pos(1), of ?n] half_up_pow_pos[OF pos(1), of ?n]
    by (simp add: pyramid_levels_last shape_image)
  let ?body = "flow_level np_linalg_det np_linalg_inv resize griddata (pyramid_levels I1' ?n)
                 (pyramid_levels I2' ?n) window_size max_iter"
  let ?Q = "\<lambda>l (st :: image \<times> image). is_image (?Hd l) (?Wd l) (fst st) \<and> is_image (?Hd l) (?Wd l) (snd st)"
  have "\<exists>s'. for_loop (rev [0..<Suc ?n]) ?body (zeros (?Hd ?n, ?Wd ?n), zeros (?Hd ?n, ?Wd ?n)) = Inr s'
             \<and> ?Q 0 s'"
  proof (rule for_loop_down[where Q = ?Q])
    fix l and st :: "image \<times> image"
    assume l: "l \<le> ?n" and Q: "?Q l st"
    from flow_level_returns[where resize = resize and griddata = griddata and Hd = ?Hd and Wd = ?Wd
        and n = ?n and u = "fst st" and v = "snd st" and window_size = window_size
        and max_iter = max_iter and np_linalg_det = np_linalg_det and np_linalg_inv = np_linalg_inv,
        OF levels l _ _ resize_ok griddata_ok inv_ok] Q
    obtain u' v' where r: "?body l (fst st, snd st) = Inr (u', v')"
      and d: "if l = 0 then is_image (?Hd 0) (?Wd 0) u' \<and> is_image (?Hd 0) (?Wd 0) v'
              else is_image (?Hd (l - 1)) (?Wd (l - 1)) u' \<and> is_image (?Hd (l - 1)) (?Wd (l - 1)) v'"
      by blast
    show "\<exists>s'. ?body l st = Inr s' \<and> (if l = 0 then ?Q 0 s' else ?Q (l - 1) s')"
    proof (cases "l = 0")
      case True
      with r d show ?thesis by (intro exI[of _ "(u', v')"]) simp
    next
      case False
      with r d show ?thesis by (intro exI[of _ "(u', v')"]) simp
    qed
  next
    show "?Q ?n (zeros (?Hd ?n, ?Wd ?n), zeros (?Hd ?n, ?Wd ?n))"
      by (simp add: is_image_zeros)
  qed
  then obtain u v where "for_loop (rev [0..<Suc ?n]) ?body
      (zeros (?Hd ?n, ?Wd ?n), zeros (?Hd ?n, ?Wd ?n)) = Inr (u, v)" "is_image H W u" "is_image H W v"
    by auto
  then show ?thesis
    using n(3) by (simp add: lucas_kanade_optical_flow_def Let_def size on_success_def I1'(1) I2'(1)
        p1 p2 last)
qed

lemma ex_resize_ok: "\<exists>b. ex_resize a (w, h) = Inr b \<and> is_image h w b"
  by (simp add: ex_resize_def is_image_iff)

lemma ex_griddata_ok: "\<exists>ys. ex_griddata p vs xi = Inr ys \<and> length ys = length xi"
  by (simp add: ex_griddata_def)

lemma ex3_images: "is_image 3 3 ex3_I1" "is_image 3 3 ex3_I2"
  by (simp_all add: is_image_def ex3_I1_def ex3_I2_def)

lemma ex3_image_size: "image_size ex3_I1 (nat 1) = (4, 4)"
  by (simp add: image_size_def ex3_I1_def height_def width_def)

theorem lucas_kanade_optical_flow_shape_witness:
  "\<exists>u v. lucas_kanade_optical_flow exact_det exact_inv ex_resize ex_griddata ex3_I1 ex3_I2 3 1 1
           = Inr (u, v) \<and>
     is_image 4 4 u \<and> is_image 4 4 v \<and> is_image 3 3 ex3_I1"
proof -
  have pos: "(0::nat) < 3" "(0::int) < 1" by simp_all
  have sq: "shape ex3_I2 = image_size ex3_I1 (nat 1) \<longrightarrow> (3::nat) = 3" by simp
  from lucas_kanade_optical_flow_shape[where resize = ex_resize and griddata = ex_griddata
      and window_size = 3 and max_iter = 1 and np_linalg_det = exact_det
      and np_linalg_inv = exact_inv,
      OF ex3_images(1) pos(1) pos(1) ex3_images(2) pos(1) pos(1) pos(2) sq ex_resize_ok ex_griddata_ok
        exact_inv_ok]
  show ?thesis
    unfolding ex3_image_size using ex3_images(1) by simp
qed

section \<open>Properties of the accumulation step\<close>

lemma slice_bound_region:
  "i < n \<Longrightarrow>
   (slice_bound n (int k) \<le> i \<and> i < slice_bound n (int n - int k)) = (k \<le> i \<and> i + k < n)"
  by (auto simp: slice_bound_def)

lemma slice_bound_upt:
  "[slice_bound n (int k)..<slice_bound n (int n - int k)] = [k..<n - k]"
proof (cases "k \<le> n")
  case True
  then have "nat (int n - int k) = n - k" by arith
  then show ?thesis using True by (simp add: slice_bound_def)
next
  case False
  then have "slice_bound n (int n - int k) \<le> slice_bound n (int k)"
    by (auto simp: slice_bound_def)
  then show ?thesis using False by simp
qed

lemma slice_bound_le: "slice_bound n i \<le> n"
  by (auto simp: slice_bound_def)

lemma is_image_add_on_slice: "is_image h w u \<Longrightarrow> is_image h w (add_on_slice rl rh cl ch m u)"
  by (simp add: add_on_slice_def Let_def is_image_iff)

lemma add_on_slice_nth:
  assumes "is_image h w u" "0 < h" "i < h" "j < w"
  shows "add_on_slice rl rh cl ch m u ! i ! j =
           (if slice_bound h rl \<le> i \<and> i < slice_bound h rh \<and> slice_bound w cl \<le> j \<and> j < slice_bound w ch
            then u ! i ! j + m else u ! i ! j)"
proof -
  have "length u = h" "length (u ! i) = w" using assms(1,3) by (simp_all add: is_image_iff)
  then show ?thesis
    using assms(3,4)
    by (simp add: add_on_slice_def Let_def is_image_height[OF assms(1)] is_image_width[OF assms(1,2)])
qed


lemma np_mean_interior:
  assumes "is_image h w a" "0 < h"
  shows "np_mean (py_slice2d (int k) (int (height a) - int k) (int k) (int (width a) - int k) a)
         = interior_mean h w k a"
proof -
  have hw: "height a = h" "width a = w"
    using assms by (simp_all add: is_image_height is_image_width)
  have fl: "flatten (py_slice2d (int k) (int h - int k) (int k) (int w - int k) a)
            = map (\<lambda>(r, c). a ! r ! c) (List.product [k..<h - k] [k..<w - k])"
  proof -
    have A: "slice_bound h (int h - int k) \<le> length a"
      using assms(1) slice_bound_le[of h] by (simp add: is_image_iff)
    have B: "slice_bound w (int w - int k) \<le> length (a ! r)" if "r < slice_bound h (int h - int k)" for r
    proof -
      have "r < h" using that slice_bound_le[of h "int h - int k"] by simp
      then show ?thesis using assms(1) slice_bound_le[of w] by (simp add: is_image_iff)
    qed
    from flatten_slice2d[where rl = "slice_bound h (int k)" and cl = "slice_bound w (int k)",
        OF A B]
    show ?thesis
      unfolding py_slice2d_def hw slice_bound_upt by simp
  qed
  have "h - k - k = h - 2 * k" "w - k - k = w - 2 * k" by simp_all
  then have len: "length (List.product [k..<h - k] [k..<w - k]) = (h - 2 * k) * (w - 2 * k)"
    by simp
  show ?thesis
    unfolding np_mean_def hw fl interior_mean_def
    by (simp add: len comp_def case_prod_beta del: length_product)
qed

lemma accumulate_displacement_values:
  fixes h w window_size :: nat
  assumes "is_image h w u" "is_image h w v" "is_image h w du" "is_image h w dv" "0 < h"
    and "i < h" "j < w"
  defines "k \<equiv> window_size div 2"
  defines "uv \<equiv> accumulate_displacement window_size du dv (u, v)"
  shows "fst uv ! i ! j = (if interior h w k i j then u ! i ! j + interior_mean h w k du else u ! i ! j)"
    and "snd uv ! i ! j = (if interior h w k i j then v ! i ! j + interior_mean h w k dv else v ! i ! j)"
proof -
  have hw: "height du = h" "width du = w" "height dv = h" "width dv = w"
    using assms(3,4,5) by (simp_all add: is_image_height is_image_width)
  have reg: "(slice_bound h (int k) \<le> i \<and> i < slice_bound h (int h - int k) \<and>
              slice_bound w (int k) \<le> j \<and> j < slice_bound w (int w - int k)) = interior h w k i j"
    using slice_bound_region[OF assms(6), of k] slice_bound_region[OF assms(7), of k]
    by (auto simp: interior_def)
  have mu: "np_mean (py_slice2d (int k) (int h - int k) (int k) (int w - int k) du) = interior_mean h w k du"
    using np_mean_interior[OF assms(3,5), of k] by (simp add: hw)
  have mv: "np_mean (py_slice2d (int k) (int h - int k) (int k) (int w - int k) dv) = interior_mean h w k dv"
    using np_mean_interior[OF assms(4,5), of k] by (simp add: hw)
  show "fst uv ! i ! j = (if interior h w k i j then u ! i ! j + interior_mean h w k du else u ! i ! j)"
    unfolding uv_def accumulate_displacement_def Let_def fst_conv snd_conv hw k_def[symmetric] mu
      add_on_slice_nth[OF assms(1,5,6,7)] reg ..
  show "snd uv ! i ! j = (if interior h w k i j then v ! i ! j + interior_mean h w k dv else v ! i ! j)"
    unfolding uv_def accumulate_displacement_def Let_def fst_conv snd_conv hw k_def[symmetric] mv
      add_on_slice_nth[OF assms(2,5,6,7)] reg ..
qed

lemma is_image_accumulate_displacement:
  assumes "is_image h w u" "is_image h w v"
  shows "is_image h w (fst (accumulate_displacement window_size du dv (u, v)))"
    and "is_image h w (snd (accumulate_displacement window_size du dv (u, v)))"
  using assms by (simp_all add: accumulate_displacement_def Let_def is_image_add_on_slice)

lemma stabilization_frame_cases:
  assumes "stabilization_frame resize griddata flow window_size IMAGE_SIZE out_size frame st = Inr st'"
  obtains gray_frame du dv where "resize frame IMAGE_SIZE = Inr gray_frame"
    "flow (prev_frame st) gray_frame = Inr (du, dv)"
    "u_acc st' = fst (accumulate_displacement window_size du dv (u_acc st, v_acc st))"
    "v_acc st' = snd (accumulate_displacement window_size du dv (u_acc st, v_acc st))"
    "prev_frame st' = gray_frame"
    "length (written st') = Suc (length (written st))"
proof -
  from assms obtain gray_frame where g: "resize frame IMAGE_SIZE = Inr gray_frame"
    by (cases "resize frame IMAGE_SIZE") (simp_all add: stabilization_frame_def on_success_def)
  from assms g obtain d where d: "flow (prev_frame st) gray_frame = Inr d"
    by (cases "flow (prev_frame st) gray_frame") (simp_all add: stabilization_frame_def on_success_def)
  let ?uv = "accumulate_displacement window_size (fst d) (snd d) (u_acc st, v_acc st)"
  from assms g d obtain wf where wf: "warp_image resize griddata gray_frame (fst ?uv) (snd ?uv) = Inr wf"
    by (cases "warp_image resize griddata gray_frame (fst ?uv) (snd ?uv)")
       (simp_all add: stabilization_frame_def on_success_def Let_def)
  from assms g d wf obtain wf' where wf': "resize wf out_size = Inr wf'"
    by (cases "resize wf out_size") (simp_all add: stabilization_frame_def on_success_def Let_def)
  from assms g d wf wf' have "st' = \<lparr>prev_frame = gray_frame, u_acc = fst ?uv, v_acc = snd ?uv,
                  written = written st @ [wf']\<rparr>"
    by (simp add: stabilization_frame_def on_success_def Let_def)
  then show ?thesis using that[of gray_frame "fst d" "snd d"] g d by simp
qed

lemma for_loop_preserves:
  assumes "\<And>i s s'. body i s = Inr s' \<Longrightarrow> P s \<Longrightarrow> P s'"
    and "for_loop is body s = Inr s'" "P s"
  shows "P s'"
  using assms(2,3)
proof (induction "is" arbitrary: s)
  case Nil
  then show ?case by simp
next
  case (Cons i "is")
  then show ?case
    using assms(1) by (cases "body i s") auto
qed

text \<open>
  Claim C9: in a stabilization driver, the accumulation step of a frame adds the scalar
  means of \<open>du\<close> and \<open>dv\<close> (taken over the interior region) to the interior region of the
  running displacement only: every entry within \<open>window_size div 2\<close> of a border is
  unchanged, and the running displacement keeps its shape, after one frame and after any
  number of frames. The flow estimator is a parameter: the statement covers both drivers.
\<close>

theorem stabilization_accumulates_interior_only:
  fixes h w window_size :: nat
  assumes "is_image h w (u_acc st)" "is_image h w (v_acc st)" "0 < h"
  defines "k \<equiv> window_size div 2"
  shows "(\<forall>st'. stabilization_frame resize griddata flow window_size IMAGE_SIZE out_size frame st = Inr st'
            \<longrightarrow> (\<exists>gray_frame du dv.
                   resize frame IMAGE_SIZE = Inr gray_frame \<and>
                   flow (prev_frame st) gray_frame = Inr (du, dv) \<and>
                   is_image h w (u_acc st') \<and> is_image h w (v_acc st') \<and>
                   (is_image h w du \<and> is_image h w dv \<longrightarrow>
                      (\<forall>i<h. \<forall>j<w.
                         (interior h w k i j \<longrightarrow>
                            u_acc st' ! i ! j = u_acc st ! i ! j + interior_mean h w k du \<and>
                            v_acc st' ! i ! j = v_acc st ! i ! j + interior_mean h w k dv) \<and>
                         (\<not> interior h w k i j \<longrightarrow>
                            u_acc st' ! i ! j = u_acc st ! i ! j \<and>
                            v_acc st' ! i ! j = v_acc st ! i ! j))))) \<and>
         (\<forall>st'. for_loop frames
                  (stabilization_frame resize griddata flow window_size IMAGE_SIZE out_size) st = Inr st'
            \<longrightarrow> is_image h w (u_acc st') \<and> is_image h w (v_acc st'))"
proof (intro conjI allI impI)
  fix st'
  assume step: "stabilization_frame resize griddata flow window_size IMAGE_SIZE out_size frame st = Inr st'"
  from stabilization_frame_cases[OF step] obtain gray_frame du dv where
    g: "resize frame IMAGE_SIZE = Inr gray_frame" and f: "flow (prev_frame st) gray_frame = Inr (du, dv)"
    and u': "u_acc st' = fst (accumulate_displacement window_size du dv (u_acc st, v_acc st))"
    and v': "v_acc st' = snd (accumulate_displacement window_size du dv (u_acc st, v_acc st))"
    by blast
  have img: "is_image h w (u_acc st')" "is_image h w (v_acc st')"
    unfolding u' v' by (rule is_image_accumulate_displacement[OF assms(1,2)])+
  have px: "(interior h w k i j \<longrightarrow>
               u_acc st' ! i ! j = u_acc st ! i ! j + interior_mean h w k du \<and>
               v_acc st' ! i ! j = v_acc st ! i ! j + interior_mean h w k dv) \<and>
            (\<not> interior h w k i j \<longrightarrow>
               u_acc st' ! i ! j = u_acc st ! i ! j \<and> v_acc st' ! i ! j = v_acc st ! i ! j)"
    if "is_image h w du" "is_image h w dv" "i < h" "j < w" for i j
    unfolding u' v' k_def
    using accumulate_displacement_values[OF assms(1,2) that(1,2) assms(3) that(3,4), of window_size]
    by simp
  show "\<exists>gray_frame du dv.
          resize frame IMAGE_SIZE = Inr gray_frame \<and>
          flow (prev_frame st) gray_frame = Inr (du, dv) \<and>
          is_image h w (u_acc st') \<and> is_image h w (v_acc st') \<and>
          (is_image h w du \<and> is_image h w dv \<longrightarrow>
             (\<forall>i<h. \<forall>j<w.
                (interior h w k i j \<longrightarrow>
                   u_acc st' ! i ! j = u_acc st ! i ! j + interior_mean h w k du \<and>
                   v_acc st' ! i ! j = v_acc st ! i ! j + interior_mean h w k dv) \<and>
                (\<not> interior h w k i j \<longrightarrow>
                   u_acc st' ! i ! j = u_acc st ! i ! j \<and>
                   v_acc st' ! i ! j = v_acc st ! i ! j)))"
    using g f img px by (intro exI[of _ gray_frame] exI[of _ du] exI[of _ dv]) blast
next
  fix st'
  assume loop: "for_loop frames
      (stabilization_frame resize griddata flow window_size IMAGE_SIZE out_size) st = Inr st'"
  let ?P = "\<lambda>s. is_image h w (u_acc s) \<and> is_image h w (v_acc s)"
  have "?P st'"
  proof (rule for_loop_preserves[where P = ?P, OF _ loop])
    fix fr s s'
    assume s: "stabilization_frame resize griddata flow window_size IMAGE_SIZE out_size fr s = Inr s'"
      and P: "?P s"
    from stabilization_frame_cases[OF s] obtain du dv where
      "u_acc s' = fst (accumulate_displacement window_size du dv (u_acc s, v_acc s))"
      "v_acc s' = snd (accumulate_displacement window_size du dv (u_acc s, v_acc s))"
      by blast
    then show "?P s'" using P by (simp add: is_image_accumulate_displacement)
  next
    show "?P st" using assms(1,2) by simp
  qed
  then show "is_image h w (u_acc st')" "is_image h w (v_acc st')" by simp_all
qed

lemma stabilization_frame_returns:
  fixes h w :: nat
  assumes resize_ok: "\<And>a w h. 0 < height a \<Longrightarrow> 0 < width a \<Longrightarrow> 0 < w \<Longrightarrow> 0 < h
           \<Longrightarrow> \<exists>b. resize a (w, h) = Inr b \<and> is_image h w b"
    and griddata_ok: "\<And>p vs xi. \<exists>ys. griddata p vs xi = Inr ys \<and> length ys = length xi"
    and flow_ok: "\<And>a b. \<exists>d. flow a b = Inr d"
    and "0 < height frame" "0 < width frame" "0 < W" "0 < H" "0 < ow" "0 < oh"
    and "is_image h w (u_acc st)" "is_image h w (v_acc st)" "0 < h" "0 < w"
  shows "\<exists>st'. stabilization_frame resize griddata flow window_size (W, H) (ow, oh) frame st = Inr st'"
proof -
  from resize_ok[OF assms(4-7)] obtain g where g: "resize frame (W, H) = Inr g" "is_image H W g"
    by blast
  from flow_ok obtain d where d: "flow (prev_frame st) g = Inr d" by blast
  let ?uv = "accumulate_displacement window_size (fst d) (snd d) (u_acc st, v_acc st)"
  have uv: "is_image h w (fst ?uv)" "is_image h w (snd ?uv)"
    by (rule is_image_accumulate_displacement[OF assms(10,11)])+
  from warp_image_returns[where resize = resize and griddata = griddata,
      OF g(2) assms(7,6) uv(1) assms(12,13) uv(2) assms(12,13) resize_ok griddata_ok]
  obtain wf where wf: "warp_image resize griddata g (fst ?uv) (snd ?uv) = Inr wf" "is_image H W wf"
    by blast
  have "0 < height wf" "0 < width wf"
    using wf(2) assms(6,7) by (simp_all add: is_image_height is_image_width)
  from resize_ok[OF this assms(8,9)] obtain wf' where "resize wf (ow, oh) = Inr wf'" by blast
  then show ?thesis
    using g(1) d wf(1) by (simp add: stabilization_frame_def on_success_def Let_def)
qed

lemma ex_flow_ok: "\<exists>d. ex_flow a b = Inr d"
  by (simp add: ex_flow_def)

lemma ex_state_images: "is_image 5 5 (u_acc ex_state)" "is_image 5 5 (v_acc ex_state)"
  by (simp_all add: ex_state_def is_image_zeros)

theorem stabilization_accumulates_interior_only_witness:
  "(\<exists>st'. stabilization_frame ex_resize ex_griddata ex_flow 3 (5, 5) (5, 5) ex_I2 ex_state = Inr st' \<and>
      is_image 5 5 (u_acc st') \<and> is_image 5 5 (v_acc st') \<and>
      u_acc st' ! 2 ! 2 = u_acc ex_state ! 2 ! 2 + interior_mean 5 5 1 (np_sub ex_I2 ex_I1) \<and>
      u_acc st' ! 0 ! 2 = u_acc ex_state ! 0 ! 2) \<and>
   (\<exists>st'. for_loop [ex_I2, ex_I1]
             (stabilization_frame ex_resize ex_griddata ex_flow 3 (5, 5) (5, 5)) ex_state = Inr st' \<and>
      is_image 5 5 (u_acc st') \<and> is_image 5 5 (v_acc st'))"
proof
  have pos: "(0::nat) < 5" by simp
  have k: "(3::nat) div 2 = 1" by simp
  have lt: "(2::nat) < 5" "(0::nat) < 5" by simp_all
  have int: "interior 5 5 1 2 2" "\<not> interior 5 5 1 0 2" by (simp_all add: interior_def)
  have fpos: "0 < height ex_I2" "0 < width ex_I2" "0 < height ex_I1" "0 < width ex_I1"
    using ex_images(1,2) by (simp_all add: is_image_height is_image_width)
  note inst = stabilization_accumulates_interior_only[where resize = ex_resize
      and griddata = ex_griddata and flow = ex_flow and window_size = 3 and IMAGE_SIZE = "(5, 5)"
      and out_size = "(5, 5)", OF ex_state_images pos, unfolded k]
  from stabilization_frame_returns[where resize = ex_resize and griddata = ex_griddata
      and flow = ex_flow and window_size = 3, OF ex_resize_ok ex_griddata_ok ex_flow_ok fpos(1,2)
      pos pos pos pos ex_state_images pos pos]
  obtain st' where st': "stabilization_frame ex_resize ex_griddata ex_flow 3 (5, 5) (5, 5) ex_I2 ex_state
      = Inr st'" by blast
  have gray: "ex_resize ex_I2 (5, 5) = Inr ex_I2" by code_simp
  have prev: "prev_frame ex_state = ex_I1" by (simp add: ex_state_def)
  have fl: "ex_flow ex_I1 ex_I2 = Inr (np_sub ex_I2 ex_I1, np_sub ex_I1 ex_I2)"
    by (simp add: ex_flow_def)
  from inst[where frame = ex_I2 and frames = "[]", THEN conjunct1, rule_format, OF st']
  obtain gray_frame du dv where
    r: "ex_resize ex_I2 (5, 5) = Inr gray_frame" "ex_flow (prev_frame ex_state) gray_frame = Inr (du, dv)"
    and img: "is_image 5 5 (u_acc st')" "is_image 5 5 (v_acc st')"
    and px: "is_image 5 5 du \<and> is_image 5 5 dv \<longrightarrow>
       (\<forall>i<5. \<forall>j<5.
          (interior 5 5 1 i j \<longrightarrow>
             u_acc st' ! i ! j = u_acc ex_state ! i ! j + interior_mean 5 5 1 du \<and>
             v_acc st' ! i ! j = v_acc ex_state ! i ! j + interior_mean 5 5 1 dv) \<and>
          (\<not> interior 5 5 1 i j \<longrightarrow>
             u_acc st' ! i ! j = u_acc ex_state ! i ! j \<and>
             v_acc st' ! i ! j = v_acc ex_state ! i ! j))"
    by blast
  have "gray_frame = ex_I2" using r(1) gray by simp
  then have du: "du = np_sub ex_I2 ex_I1" and dv: "dv = np_sub ex_I1 ex_I2"
    using r(2) prev fl by simp_all
  have "is_image 5 5 du" "is_image 5 5 dv"
    unfolding du dv by (simp_all add: is_image_np_sub ex_images)
  with px have all: "\<forall>i<5. \<forall>j<5.
          (interior 5 5 1 i j \<longrightarrow>
             u_acc st' ! i ! j = u_acc ex_state ! i ! j + interior_mean 5 5 1 du \<and>
             v_acc st' ! i ! j = v_acc ex_state ! i ! j + interior_mean 5 5 1 dv) \<and>
          (\<not> interior 5 5 1 i j \<longrightarrow>
             u_acc st' ! i ! j = u_acc ex_state ! i ! j \<and>
             v_acc st' ! i ! j = v_acc ex_state ! i ! j)"
    by blast
  from all[rule_format, OF lt(1) lt(1)] int(1)
  have a: "u_acc st' ! 2 ! 2 = u_acc ex_state ! 2 ! 2 + interior_mean 5 5 1 (np_sub ex_I2 ex_I1)"
    unfolding du by blast
  from all[rule_format, OF lt(2) lt(1)] int(2)
  have b: "u_acc st' ! 0 ! 2 = u_acc ex_state ! 0 ! 2" by blast
  show "\<exists>st'. stabilization_frame ex_resize ex_griddata ex_flow 3 (5, 5) (5, 5) ex_I2 ex_state = Inr st' \<and>
      is_image 5 5 (u_acc st') \<and> is_image 5 5 (v_acc st') \<and>
      u_acc st' ! 2 ! 2 = u_acc ex_state ! 2 ! 2 + interior_mean 5 5 1 (np_sub ex_I2 ex_I1) \<and>
      u_acc st' ! 0 ! 2 = u_acc ex_state ! 0 ! 2"
    using st' img a b by blast
  let ?body = "stabilization_frame ex_resize ex_griddata ex_flow 3 (5, 5) (5, 5)"
  let ?P = "\<lambda>s :: stab_state. is_image 5 5 (u_acc s) \<and> is_image 5 5 (v_acc s)"
  have "\<exists>s'. for_loop [ex_I2, ex_I1] ?body ex_state = Inr s' \<and> ?P s'"
  proof (rule for_loop_invariant[where P = ?P])
    fix fr and s :: stab_state assume fr: "fr \<in> set [ex_I2, ex_I1]" and P: "?P s"
    then have "0 < height fr" "0 < width fr" using fpos by auto
    from stabilization_frame_returns[where resize = ex_resize and griddata = ex_griddata
        and flow = ex_flow and window_size = 3, OF ex_resize_ok ex_griddata_ok ex_flow_ok this
        pos pos pos pos _ _ pos pos, of s] P
    obtain s' where s': "?body fr s = Inr s'" by blast
    have Ps: "is_image 5 5 (u_acc s)" "is_image 5 5 (v_acc s)" using P by simp_all
    have one: "for_loop [fr] ?body s = Inr s'" using s' by simp
    from stabilization_accumulates_interior_only[where resize = ex_resize
      and griddata = ex_griddata and flow = ex_flow and window_size = 3 and IMAGE_SIZE = "(5, 5)"
      and out_size = "(5, 5)" and frames = "[fr]" and st = s, OF Ps pos, THEN conjunct2,
      rule_format, OF one]
    have "?P s'" by simp
    with s' show "\<exists>s'. ?body fr s = Inr s' \<and> ?P s'" by blast
  next
    show "?P ex_state" using ex_state_images by simp
  qed
  then show "\<exists>st'. for_loop [ex_I2, ex_I1] ?body ex_state = Inr st' \<and>
      is_image 5 5 (u_acc st') \<and> is_image 5 5 (v_acc st')"
    by blast
qed

end
